theory Spec2Isabelle
  imports Main "HOL-Library.Word" "HOL-Library.Sublist"
begin

text \<open>
  A model of the two tools of the plugin, \<open>Search\<close> and \<open>Visit\<close>, as the last
  revision of \<open>src/index.ts\<close> defines them (the revision whose configuration is
  scoped as \<open>search.*\<close> and \<open>visit.*\<close>). A handler is a function of the host
  configuration, of the platform services it calls and of its arguments; it returns a
  value or throws. The \<open>console.log\<close> of the Search handler has no effect on the
  result and is left out.
\<close>

section \<open>JavaScript strings\<close>

text \<open>
  A JavaScript string is a sequence of 16-bit code units; \<open>length\<close>, \<open>slice\<close>, the
  regular expressions and \<open>trim\<close> of the plugin all work on code units. String literals
  of the source are ASCII and are written through \<open>js\<close>.
\<close>

type_synonym jschar = "16 word"
type_synonym jsstring = "jschar list"

definition js :: "string \<Rightarrow> jsstring" where
  "js s = map of_char s"

definition nl :: jschar where
  "nl = 0x0A"

definition space :: jschar where
  "space = 0x20"

definition tab :: jschar where
  "tab = 0x09"

text \<open>
  The class \<open>\s\<close> of a regular expression, which is also what \<open>trim\<close> strips:
  WhiteSpace and LineTerminator of ECMAScript.
\<close>

definition is_ws :: "jschar \<Rightarrow> bool" where
  "is_ws c \<longleftrightarrow>
     c = 0x09 \<or> c = 0x0A \<or> c = 0x0B \<or> c = 0x0C \<or> c = 0x0D \<or> c = 0x20 \<or>
     c = 0xA0 \<or> c = 0x1680 \<or> (0x2000 \<le> c \<and> c \<le> 0x200A) \<or>
     c = 0x2028 \<or> c = 0x2029 \<or> c = 0x202F \<or> c = 0x205F \<or> c = 0x3000 \<or> c = 0xFEFF"

text \<open>The class \<open>[ \t]\<close>.\<close>

definition is_hws :: "jschar \<Rightarrow> bool" where
  "is_hws c \<longleftrightarrow> c = space \<or> c = tab"

text \<open>\<open>xs.slice(0, end)\<close> of an array or a string, for an integral \<open>end\<close>.\<close>

definition slice0 :: "'a list \<Rightarrow> int \<Rightarrow> 'a list" where
  "slice0 xs e =
     (let len = int (length xs);
          final = (if e < 0 then max (len + e) 0 else min e len)
      in take (nat final) xs)"

text \<open>\<open>xs.join(sep)\<close> of an array of strings.\<close>

fun join :: "jsstring \<Rightarrow> jsstring list \<Rightarrow> jsstring" where
  "join sep [] = []"
| "join sep [x] = x"
| "join sep (x # y # ys) = x @ sep @ join sep (y # ys)"

text \<open>\<open>n.toString()\<close> of a non-negative integer: its decimal digits.\<close>

function Number_toString :: "nat \<Rightarrow> jsstring" where
  "Number_toString n =
     (if n < 10 then [of_nat (48 + n)]
      else Number_toString (n div 10) @ [of_nat (48 + n mod 10)])"
  by pat_completeness auto
termination
  by (relation "measure id") auto

section \<open>The URL object of the platform\<close>

text \<open>
  \<open>new URL(s)\<close> is the platform's parser and is taken as a parameter of the handlers. The
  parsed URL keeps what precedes the query (scheme, authority and path, serialised), the
  name-value list of \<open>url.searchParams\<close> and the fragment (with its \<open>#\<close>, or empty).
  After an \<open>append\<close> the query of the URL is the serialisation of the whole list, which
  is what \<open>URL_toString\<close> prints; the Search handler always appends before it prints.
\<close>

record url =
  before_query :: jsstring
  searchParams :: "(jsstring \<times> jsstring) list"
  hash :: jsstring

definition searchParams_append :: "url \<Rightarrow> jsstring \<Rightarrow> jsstring \<Rightarrow> url" where
  "searchParams_append u name val = u\<lparr>searchParams := searchParams u @ [(name, val)]\<rparr>"

text \<open>
  The serialiser of \<open>application/x-www-form-urlencoded\<close>: a string is converted to
  scalar values (a lone surrogate becomes U+FFFD), encoded as UTF-8, and each byte is
  kept when it is an ASCII letter, a digit or one of \<open>* - . _\<close>, written \<open>+\<close> when it is
  a space, and percent-encoded with upper-case hexadecimal digits otherwise.
\<close>

definition is_lead :: "jschar \<Rightarrow> bool" where
  "is_lead c \<longleftrightarrow> 0xD800 \<le> c \<and> c \<le> 0xDBFF"

definition is_trail :: "jschar \<Rightarrow> bool" where
  "is_trail c \<longleftrightarrow> 0xDC00 \<le> c \<and> c \<le> 0xDFFF"

definition scalar1 :: "jschar \<Rightarrow> nat" where
  "scalar1 c = (if is_lead c \<or> is_trail c then 0xFFFD else unat c)"

fun scalar_values :: "jsstring \<Rightarrow> nat list" where
  "scalar_values [] = []"
| "scalar_values [c] = [scalar1 c]"
| "scalar_values (c # d # cs) =
     (if is_lead c \<and> is_trail d
      then (0x10000 + (unat c - 0xD800) * 0x400 + (unat d - 0xDC00)) # scalar_values cs
      else scalar1 c # scalar_values (d # cs))"

definition utf8 :: "nat \<Rightarrow> nat list" where
  "utf8 cp =
     (if cp < 0x80 then [cp]
      else if cp < 0x800 then [0xC0 + cp div 0x40, 0x80 + cp mod 0x40]
      else if cp < 0x10000 then
        [0xE0 + cp div 0x1000, 0x80 + (cp div 0x40) mod 0x40, 0x80 + cp mod 0x40]
      else
        [0xF0 + cp div 0x40000, 0x80 + (cp div 0x1000) mod 0x40,
         0x80 + (cp div 0x40) mod 0x40, 0x80 + cp mod 0x40])"

definition hex_digit :: "nat \<Rightarrow> jschar" where
  "hex_digit d = (if d < 10 then of_nat (48 + d) else of_nat (55 + d))"

definition form_keep :: "nat \<Rightarrow> bool" where
  "form_keep b \<longleftrightarrow>
     b = 0x2A \<or> b = 0x2D \<or> b = 0x2E \<or> b = 0x5F \<or>
     (0x30 \<le> b \<and> b \<le> 0x39) \<or> (0x41 \<le> b \<and> b \<le> 0x5A) \<or> (0x61 \<le> b \<and> b \<le> 0x7A)"

definition form_byte :: "nat \<Rightarrow> jsstring" where
  "form_byte b =
     (if b = 0x20 then [0x2B]
      else if form_keep b then [of_nat b]
      else [0x25, hex_digit (b div 16), hex_digit (b mod 16)])"

definition form_encode :: "jsstring \<Rightarrow> jsstring" where
  "form_encode s = concat (map form_byte (concat (map utf8 (scalar_values s))))"

definition form_serialize :: "(jsstring \<times> jsstring) list \<Rightarrow> jsstring" where
  "form_serialize ps =
     join (js ''&'') (map (\<lambda>(name, val). form_encode name @ js ''='' @ form_encode val) ps)"

definition URL_toString :: "url \<Rightarrow> jsstring" where
  "URL_toString u =
     (let q = form_serialize (searchParams u)
      in before_query u @ (if q = [] then [] else js ''?'' @ q) @ hash u)"

section \<open>Configuration, responses and JSON values\<close>

text \<open>The configuration of the host, read by each call: the fields of \<open>configSchema\<close>.\<close>

record config =
  search_baseURL :: jsstring
  search_maxResults :: int
  search_engines :: "jsstring list"
  search_safeSearch :: jsstring
  search_language :: jsstring
  visit_forceRaw :: bool
  visit_maxContentLength :: int

text \<open>What the handlers read of a \<open>Response\<close>; \<open>response.ok\<close> is a status from 200 to 299.\<close>

record response =
  status :: nat
  statusText :: jsstring
  body :: jsstring

definition ok :: "response \<Rightarrow> bool" where
  "ok r \<longleftrightarrow> 200 \<le> status r \<and> status r \<le> 299"

text \<open>
  The value \<open>response.json()\<close> resolves to. The handlers never look at a number, so its
  representation is a type parameter. An object is the list of its own properties, each
  name once.
\<close>

datatype 'n json =
    JNull
  | JBool bool
  | JNumber 'n
  | JString jsstring
  | JArray "'n json list"
  | JObject "(jsstring \<times> 'n json) list"

datatype fault = TypeError | SyntaxError

text \<open>
  \<open>v.name\<close> on a parsed JSON value, for the names the handler reads (\<open>results\<close>,
  \<open>title\<close>, \<open>content\<close>, \<open>url\<close>), none of which a built-in prototype defines: reading
  a property of \<open>null\<close> throws, an object gives its own property or \<open>undefined\<close>
  (\<open>None\<close>), any other value gives \<open>undefined\<close>.
\<close>

fun get_prop :: "'n json \<Rightarrow> jsstring \<Rightarrow> fault + 'n json option" where
  "get_prop JNull name = Inl TypeError"
| "get_prop (JObject kvs) name = Inr (map_of kvs name)"
| "get_prop v name = Inr None"

record 'n search_result =
  title :: "'n json option"
  summary :: "'n json option"
  url :: "'n json option"

record article =
  a_title :: "jsstring option"
  a_textContent :: "jsstring option"
  a_excerpt :: "jsstring option"
  a_byline :: "jsstring option"
  a_siteName :: "jsstring option"
  a_lang :: "jsstring option"
  a_publishedTime :: "jsstring option"

record visit_output =
  v_title :: "jsstring option"
  v_content :: jsstring
  v_excerpt :: "jsstring option"
  v_byline :: "jsstring option"
  v_siteName :: "jsstring option"
  v_lang :: "jsstring option"
  v_publishedTime :: "jsstring option"

datatype 'n tool_value =
    Str jsstring
  | SearchOutput "'n search_result list"
  | Article visit_output

datatype 'a outcome = Returned 'a | Thrown fault

text \<open>
  What the handlers call outside the repository: the URL parser (\<open>None\<close> when it throws),
  \<open>fetch\<close> (\<open>None\<close> when the request is rejected), the JSON parser behind
  \<open>response.json()\<close> (\<open>None\<close> when the body is not JSON) and JSDOM with Readability
  (\<open>None\<close> when \<open>parse()\<close> returns \<open>null\<close>).
\<close>

record 'n env =
  URL_parse :: "jsstring \<Rightarrow> url option"
  fetch :: "jsstring \<Rightarrow> response option"
  JSON_parse :: "jsstring \<Rightarrow> 'n json option"
  readability :: "jsstring \<Rightarrow> article option"

section \<open>The Search handler\<close>

definition safeSearch_level :: "jsstring \<Rightarrow> nat" where
  "safeSearch_level safeSearchValue =
     (if safeSearchValue = js ''Moderate'' then 1
      else if safeSearchValue = js ''Strict'' then 0
      else 2)"

text \<open>The five \<open>url.searchParams.append\<close> calls of the handler, in their order.\<close>

definition Search_build :: "url \<Rightarrow> config \<Rightarrow> jsstring \<Rightarrow> url" where
  "Search_build url0 cfg query =
     (let safeSearch = safeSearch_level (search_safeSearch cfg);
          url1 = searchParams_append url0 (js ''q'') query;
          url2 = searchParams_append url1 (js ''engines'') (join (js '','') (search_engines cfg));
          url3 = searchParams_append url2 (js ''language'') (search_language cfg);
          url4 = searchParams_append url3 (js ''format'') (js ''json'');
          url5 = searchParams_append url4 (js ''safesearch'') (Number_toString safeSearch)
      in url5)"

text \<open>The string given to \<open>fetch\<close>, when the base URL parses.\<close>

definition Search_url :: "'n env \<Rightarrow> config \<Rightarrow> jsstring \<Rightarrow> jsstring option" where
  "Search_url env cfg query =
     (case URL_parse env (search_baseURL cfg) of
        None \<Rightarrow> None
      | Some url0 \<Rightarrow> Some (URL_toString (Search_build url0 cfg query)))"

text \<open>The arrow function given to \<open>map\<close>, on one element of \<open>results\<close>.\<close>

definition to_result :: "'n json \<Rightarrow> fault + 'n search_result" where
  "to_result r =
     (case get_prop r (js ''title'') of
        Inl f \<Rightarrow> Inl f
      | Inr t \<Rightarrow>
          (case get_prop r (js ''content'') of
             Inl f \<Rightarrow> Inl f
           | Inr c \<Rightarrow>
               (case get_prop r (js ''url'') of
                  Inl f \<Rightarrow> Inl f
                | Inr u \<Rightarrow> Inr \<lparr>title = t, summary = c, url = u\<rparr>)))"

text \<open>\<open>map\<close> over an array with a callback that may throw: the first throw ends it.\<close>

fun array_map :: "('a \<Rightarrow> fault + 'b) \<Rightarrow> 'a list \<Rightarrow> fault + 'b list" where
  "array_map f [] = Inr []"
| "array_map f (x # xs) =
     (case f x of
        Inl e \<Rightarrow> Inl e
      | Inr y \<Rightarrow> (case array_map f xs of Inl e \<Rightarrow> Inl e | Inr ys \<Rightarrow> Inr (y # ys)))"

text \<open>
  \<open>data.results.map(...)\<close>: only an array has a callable \<open>map\<close>; on \<open>undefined\<close>,
  \<open>null\<close> or any other JSON value the call throws a TypeError.
\<close>

definition map_results :: "'n json \<Rightarrow> fault + 'n search_result list" where
  "map_results data =
     (case get_prop data (js ''results'') of
        Inl f \<Rightarrow> Inl f
      | Inr (Some (JArray rs)) \<Rightarrow> array_map to_result rs
      | Inr _ \<Rightarrow> Inl TypeError)"

definition Search :: "'n env \<Rightarrow> config \<Rightarrow> jsstring \<Rightarrow> 'n tool_value outcome" where
  "Search env cfg query =
     (case Search_url env cfg query of
        None \<Rightarrow> Thrown TypeError
      | Some target \<Rightarrow>
          (case fetch env target of
             None \<Rightarrow> Thrown TypeError
           | Some response \<Rightarrow>
               if \<not> ok response
               then Returned (Str (js ''Failed to make request: '' @ statusText response))
               else
                 (case JSON_parse env (body response) of
                    None \<Rightarrow> Thrown SyntaxError
                  | Some data \<Rightarrow>
                      (case map_results data of
                         Inl f \<Rightarrow> Thrown f
                       | Inr mapped \<Rightarrow>
                           Returned (SearchOutput
                             (slice0 mapped (search_maxResults cfg)))))))"

section \<open>The Visit handler\<close>

text \<open>
  \<open>s.replace(re, rep)\<close> for a global regular expression without anchors or
  look-behind: \<open>m\<close> gives the length of the match of \<open>re\<close> that starts at the head of
  the rest of the string, scanning goes from left to right and resumes behind each match
  (one code unit further after an empty match).
\<close>

fun replace_all :: "(jsstring \<Rightarrow> nat option) \<Rightarrow> jsstring \<Rightarrow> jsstring \<Rightarrow> jsstring" where
  "replace_all m rep [] = (case m [] of None \<Rightarrow> [] | Some _ \<Rightarrow> rep)"
| "replace_all m rep (c # cs) =
     (case m (c # cs) of
        None \<Rightarrow> c # replace_all m rep cs
      | Some 0 \<Rightarrow> rep @ c # replace_all m rep cs
      | Some (Suc n) \<Rightarrow> rep @ replace_all m rep (drop n cs))"

text \<open>
  The match of \<open>/\n\s*\n/\<close> at the head of a string: its length, if there is one.
  After the first newline the greedy \<open>\s*\<close> takes the whole run of white space; what
  follows the run is not a newline, so the matcher backtracks, giving back code units
  from the end of the run until the one given back is a newline, which then matches the
  final \<open>\n\<close>. \<open>taken\<close> is the run up to and including its last newline.
\<close>

definition match_blank :: "jsstring \<Rightarrow> nat option" where
  "match_blank s =
     (case s of
        [] \<Rightarrow> None
      | c # cs \<Rightarrow>
          if c \<noteq> nl then None
          else
            (let taken = rev (dropWhile (\<lambda>d. d \<noteq> nl) (rev (takeWhile is_ws cs)))
             in if taken = [] then None else Some (1 + length taken)))"

text \<open>The match of \<open>/[ \t]+/\<close> at the head of a string.\<close>

definition match_hws :: "jsstring \<Rightarrow> nat option" where
  "match_hws s = (let n = length (takeWhile is_hws s) in if n = 0 then None else Some n)"

definition trim :: "jsstring \<Rightarrow> jsstring" where
  "trim s = rev (dropWhile is_ws (rev (dropWhile is_ws s)))"

text \<open>\<open>.replace(/\n\s*\n/g, "\n").replace(/[ \t]+/g, " ").trim()\<close>\<close>

definition clean :: "jsstring \<Rightarrow> jsstring" where
  "clean t = trim (replace_all match_hws [space] (replace_all match_blank [nl] t))"

definition truncation_marker :: jsstring where
  "truncation_marker = js ''...Text truncated due to length limit''"

definition Visit :: "'n env \<Rightarrow> config \<Rightarrow> jsstring \<Rightarrow> bool \<Rightarrow> 'n tool_value outcome" where
  "Visit env cfg target returnRaw =
     (case fetch env target of
        None \<Rightarrow> Thrown TypeError
      | Some response \<Rightarrow>
          if \<not> ok response
          then Returned (Str (js ''Failed to make request: '' @ statusText response))
          else
            (let html = body response in
             if returnRaw \<or> visit_forceRaw cfg then Returned (Str html)
             else
               (case readability env html of
                  None \<Rightarrow> Returned (Str (js ''Failed to extract readable content.''))
                | Some art \<Rightarrow>
                    (let cleanText =
                           clean (case a_textContent art of None \<Rightarrow> [] | Some t \<Rightarrow> t);
                         maxContentLength = visit_maxContentLength cfg;
                         cleanText' =
                           (if maxContentLength > 0
                               \<and> int (length cleanText) > maxContentLength
                            then slice0 cleanText maxContentLength @ truncation_marker
                            else cleanText)
                     in Returned (Article
                          \<lparr>v_title = a_title art,
                           v_content = cleanText',
                           v_excerpt = a_excerpt art,
                           v_byline = a_byline art,
                           v_siteName = a_siteName art,
                           v_lang = a_lang art,
                           v_publishedTime = a_publishedTime art\<rparr>)))))"

text \<open>
  The tool as the host calls it: \<open>returnRaw\<close> is optional and defaults to \<open>false\<close>
  (\<open>z.boolean().optional().default(false)\<close>).
\<close>

definition Visit_tool :: "'n env \<Rightarrow> config \<Rightarrow> jsstring \<Rightarrow> bool option \<Rightarrow> 'n tool_value outcome" where
  "Visit_tool env cfg target returnRaw =
     Visit env cfg target (case returnRaw of None \<Rightarrow> False | Some b \<Rightarrow> b)"

section \<open>The properties of the returned content\<close>

text \<open>\<open>s.split("\n")\<close>: the lines of a text.\<close>

fun split_lines :: "jsstring \<Rightarrow> jsstring list" where
  "split_lines [] = [[]]"
| "split_lines (c # cs) =
     (if c = nl then [] # split_lines cs
      else (case split_lines cs of l # ls \<Rightarrow> (c # l) # ls | [] \<Rightarrow> [[c]]))"

text \<open>A line is blank when it is empty or holds white space only.\<close>

definition blank :: "jsstring \<Rightarrow> bool" where
  "blank l = list_all is_ws l"

text \<open>Two consecutive lines are both blank.\<close>

fun two_blank_lines :: "jsstring list \<Rightarrow> bool" where
  "two_blank_lines (a # b # ls) = ((blank a \<and> blank b) \<or> two_blank_lines (b # ls))"
| "two_blank_lines ls = False"

text \<open>Two consecutive code units are both a space or a tab.\<close>

fun hws_run :: "jsstring \<Rightarrow> bool" where
  "hws_run (a # b # cs) = ((is_hws a \<and> is_hws b) \<or> hws_run (b # cs))"
| "hws_run cs = False"

text \<open>The string starts or ends with white space.\<close>

definition untrimmed :: "jsstring \<Rightarrow> bool" where
  "untrimmed s = (case s of [] \<Rightarrow> False | c # cs \<Rightarrow> is_ws c \<or> is_ws (last (c # cs)))"

text \<open>No newline is followed by white space that holds another newline.\<close>

fun no_inner_blank :: "jsstring \<Rightarrow> bool" where
  "no_inner_blank [] = True"
| "no_inner_blank (c # cs) =
     ((c \<noteq> nl \<or> nl \<notin> set (takeWhile is_ws cs)) \<and> no_inner_blank cs)"

text \<open>
  The normalisation in the words of the specification. A run of spaces and tabs becomes a
  single space:
\<close>

function collapse_spaces :: "jsstring \<Rightarrow> jsstring" where
  "collapse_spaces [] = []"
| "collapse_spaces (c # cs) =
     (if is_hws c then space # collapse_spaces (dropWhile is_hws cs)
      else c # collapse_spaces cs)"
  by pat_completeness auto
termination
  by (relation "measure length") (auto simp add: le_imp_less_Suc length_dropWhile_le)

text \<open>
  The blank lines are dropped, so that the remaining lines are separated by single
  newlines; in each line the runs of spaces and tabs are collapsed; the result is trimmed.
\<close>

definition normalize_spec :: "jsstring \<Rightarrow> jsstring" where
  "normalize_spec t =
     trim (join [nl] (map collapse_spaces (filter (\<lambda>l. \<not> blank l) (split_lines t))))"

text \<open>The lines without the blank ones, except that the last line stays in any case.\<close>

fun drop_inner_blank :: "jsstring list \<Rightarrow> jsstring list" where
  "drop_inner_blank [] = []"
| "drop_inner_blank [l] = [l]"
| "drop_inner_blank (l # m # ls) =
     (if blank l then drop_inner_blank (m # ls) else l # drop_inner_blank (m # ls))"

text \<open>
  The \<open>results\<close> array of a parsed search response: the value is an object whose
  \<open>results\<close> property is an array.
\<close>

definition results_array :: "'n json \<Rightarrow> 'n json list option" where
  "results_array data =
     (case data of
        JObject kvs \<Rightarrow>
          (case map_of kvs (js ''results'') of Some (JArray rs) \<Rightarrow> Some rs | _ \<Rightarrow> None)
      | _ \<Rightarrow> None)"

section \<open>Example inputs\<close>

text \<open>
  Concrete inputs on which the handlers are evaluated below: the configuration of the
  specification's example, a search endpoint that answers with two results, a page with
  an article, and a response with status 404.
\<close>

definition example_url :: url where
  "example_url = \<lparr>before_query = js ''http://localhost/search'', searchParams = [], hash = []\<rparr>"

definition example_config :: config where
  "example_config =
     \<lparr>search_baseURL = js ''http://localhost/search'',
      search_maxResults = 3,
      search_engines = [js ''bing''],
      search_safeSearch = js ''Off'',
      search_language = js ''en-US'',
      visit_forceRaw = False,
      visit_maxContentLength = 4096\<rparr>"

definition example_body :: jsstring where
  \<open>example_body = js ''{"results":[{"url":"https://a.example/","title":"A","content":"first"},{"url":"https://b.example/","title":"B","content":"second"}]}''\<close>

definition example_data :: "int json" where
  "example_data =
     JObject [(js ''results'', JArray
       [JObject [(js ''url'', JString (js ''https://a.example/'')),
                 (js ''title'', JString (js ''A'')),
                 (js ''content'', JString (js ''first''))],
        JObject [(js ''url'', JString (js ''https://b.example/'')),
                 (js ''title'', JString (js ''B'')),
                 (js ''content'', JString (js ''second''))]])]"

definition example_html :: jsstring where
  "example_html = js ''<html><body><article><p>Hello   world</p></article></body></html>''"

definition example_article :: article where
  "example_article =
     \<lparr>a_title = Some (js ''Greeting''),
      a_textContent = Some (js '' Hello \<newline>\<newline> \<newline>  big   world \<newline>''),
      a_excerpt = None, a_byline = None, a_siteName = None, a_lang = None,
      a_publishedTime = None\<rparr>"

definition example_error_body :: jsstring where
  \<open>example_error_body = js ''{"error":"rate limited"}''\<close>

definition example_error_data :: "int json" where
  "example_error_data = JObject [(js ''error'', JString (js ''rate limited''))]"

definition example_bare_html :: jsstring where
  "example_bare_html = js ''<html><body><article></article></body></html>''"

definition example_bare_article :: article where
  "example_bare_article =
     \<lparr>a_title = Some (js ''Untitled''),
      a_textContent = None,
      a_excerpt = None, a_byline = None, a_siteName = None, a_lang = None,
      a_publishedTime = None\<rparr>"

text \<open>
  The example environment answers every request with the response \<open>r\<close>; its parsers
  know the example texts above and reject every other input.
\<close>

definition example_env :: "response \<Rightarrow> int env" where
  "example_env r =
     \<lparr>URL_parse = (\<lambda>s. if s = js ''http://localhost/search'' then Some example_url else None),
      fetch = (\<lambda>_. Some r),
      JSON_parse =
        (\<lambda>s. if s = example_body then Some example_data
             else if s = example_error_body then Some example_error_data
             else None),
      readability =
        (\<lambda>h. if h = example_html then Some example_article
             else if h = example_bare_html then Some example_bare_article
             else None)\<rparr>"

text \<open>What Visit returns for the example page under the example configuration.\<close>

definition example_output :: visit_output where
  "example_output =
     \<lparr>v_title = Some (js ''Greeting''), v_content = js ''Hello \<newline> big world'',
      v_excerpt = None, v_byline = None, v_siteName = None, v_lang = None,
      v_publishedTime = None\<rparr>"

definition response_200 :: "jsstring \<Rightarrow> response" where
  "response_200 b = \<lparr>status = 200, statusText = js ''OK'', body = b\<rparr>"

definition response_404 :: response where
  "response_404 = \<lparr>status = 404, statusText = js ''Not Found'', body = js ''<h1>Not Found</h1>''\<rparr>"

section \<open>Code units, slices and joins\<close>

lemma is_ws_nl: "is_ws nl"
  by (simp add: is_ws_def nl_def)

lemma hws_ws: "is_hws c \<Longrightarrow> is_ws c"
  by (auto simp add: is_ws_def is_hws_def space_def tab_def)

lemma hws_not_nl: "is_hws c \<Longrightarrow> c \<noteq> nl"
  by (auto simp add: is_hws_def space_def tab_def nl_def)

lemma not_hws_nl: "\<not> is_hws nl"
  by (simp add: is_hws_def space_def tab_def nl_def)

lemma space_not_nl: "space \<noteq> nl"
  by (simp add: space_def nl_def)

lemma slice0_nonneg: "0 \<le> e \<Longrightarrow> slice0 xs e = take (nat e) xs"
  by (simp add: slice0_def Let_def min_def)

lemma slice0_zero: "slice0 xs 0 = []"
  by (simp add: slice0_def)

lemma join_append:
  "xs \<noteq> [] \<Longrightarrow> ys \<noteq> [] \<Longrightarrow> join sep (xs @ ys) = join sep xs @ sep @ join sep ys"
proof (induction sep xs rule: join.induct)
  case (1 sep)
  then show ?case by simp
next
  case (2 sep x)
  then show ?case by (cases ys) auto
next
  case (3 sep x y ys')
  then show ?case by simp
qed

lemma form_serialize_append:
  "qs \<noteq> [] \<Longrightarrow>
   form_serialize (ps @ qs) =
     (if ps = [] then [] else form_serialize ps @ js ''&'') @ form_serialize qs"
  by (simp add: form_serialize_def join_append)

lemma takeWhile_dropWhile_Nil: "takeWhile P (dropWhile P xs) = []"
  by (induction xs) auto

lemma drop_length_takeWhile: "drop (length (takeWhile P xs)) xs = dropWhile P xs"
  by (induction xs) auto

lemma dropWhile_head: "dropWhile P xs = [] \<or> \<not> P (hd (dropWhile P xs))"
  by (induction xs) auto

lemma takeWhile_append_subset: "set (takeWhile P (xs @ ys)) \<subseteq> set (takeWhile P xs) \<union> set ys"
  by (induction xs) (auto dest: set_takeWhileD)

lemma takeWhile_prefix_subset: "set (takeWhile P xs) \<subseteq> set (takeWhile P (xs @ ys))"
  by (induction xs) auto

section \<open>The request of the Search handler\<close>

lemma Search_build_params:
  "searchParams (Search_build u cfg query) =
     searchParams u @
     [(js ''q'', query),
      (js ''engines'', join (js '','') (search_engines cfg)),
      (js ''language'', search_language cfg),
      (js ''format'', js ''json''),
      (js ''safesearch'', Number_toString (safeSearch_level (search_safeSearch cfg)))]"
  by (simp add: Search_build_def searchParams_append_def Let_def)

lemma Search_build_rest:
  "before_query (Search_build u cfg query) = before_query u"
  "hash (Search_build u cfg query) = hash u"
  by (simp_all add: Search_build_def searchParams_append_def Let_def)

lemma example_query_string:
  "form_serialize
     [(js ''q'', js ''weather today''),
      (js ''engines'', join (js '','') [js ''bing'']),
      (js ''language'', js ''en-US''),
      (js ''format'', js ''json''),
      (js ''safesearch'', Number_toString (safeSearch_level (js ''Off'')))] =
   js ''q=weather+today&engines=bing&language=en-US&format=json&safesearch=2''"
  by code_simp

lemma example_Search_url:
  "Search_url (example_env r) example_config (js ''weather today'') =
     Some (js ''http://localhost/search?q=weather+today&engines=bing&language=en-US&format=json&safesearch=2'')"
proof -
  have "URL_toString (Search_build example_url example_config (js ''weather today'')) =
     js ''http://localhost/search?q=weather+today&engines=bing&language=en-US&format=json&safesearch=2''"
    by code_simp
  then show ?thesis
    by (simp add: Search_url_def example_env_def example_config_def)
qed

lemma example_fetch: "fetch (example_env r) target = Some r"
  by (simp add: example_env_def)

lemma map_results_no_array: "results_array data = None \<Longrightarrow> map_results data = Inl TypeError"
  by (cases data)
     (auto simp add: results_array_def map_results_def split: option.splits json.splits)

lemma map_results_array:
  "results_array data = Some rs \<Longrightarrow> map_results data = array_map to_result rs"
  by (cases data)
     (auto simp add: results_array_def map_results_def split: option.splits json.splits)

text \<open>
  On a response with a \<open>results\<close> array whose elements all map, the handler returns the
  mapped results cut by \<open>slice(0, maxResults)\<close>: the first \<open>N\<close> of them for \<open>N > 0\<close>,
  and none for \<open>N = 0\<close>.
\<close>

lemma Search_slices:
  assumes "Search_url env cfg query = Some target" and "fetch env target = Some r" and "ok r"
    and "JSON_parse env (body r) = Some data" and "results_array data = Some rs"
    and "array_map to_result rs = Inr mapped"
    and "0 \<le> search_maxResults cfg"
  shows "Search env cfg query =
           Returned (SearchOutput (take (nat (search_maxResults cfg)) mapped))"
  using assms by (simp add: Search_def map_results_array slice0_nonneg)

section \<open>Normalisation of the extracted text\<close>

subsection \<open>Collapsing blank lines\<close>

lemma match_blank_Nil: "match_blank [] = None"
  by (simp add: match_blank_def)

lemma match_blank_not_nl: "c \<noteq> nl \<Longrightarrow> match_blank (c # cs) = None"
  by (simp add: match_blank_def)

lemma match_blank_not_0: "match_blank s \<noteq> Some 0"
  by (simp add: match_blank_def Let_def split: list.splits)

lemma match_blank_nl_None:
  "match_blank (nl # cs) = None \<Longrightarrow> nl \<notin> set (takeWhile is_ws cs)"
proof -
  assume a: "match_blank (nl # cs) = None"
  have "dropWhile (\<lambda>d. d \<noteq> nl) (rev (takeWhile is_ws cs)) = []"
    using a by (simp add: match_blank_def Let_def split: if_splits)
  then have "\<forall>d \<in> set (rev (takeWhile is_ws cs)). d \<noteq> nl"
    by (simp add: dropWhile_eq_Nil_conv)
  then show ?thesis by auto
qed

lemma match_blank_nl_Some:
  assumes "match_blank (nl # cs) = Some (Suc n)"
  shows "\<exists>rest. drop n cs = rest @ dropWhile is_ws cs \<and> list_all is_ws rest \<and> nl \<notin> set rest"
proof -
  define W where "W = takeWhile is_ws cs"
  define taken where "taken = rev (dropWhile (\<lambda>d. d \<noteq> nl) (rev W))"
  define rest where "rest = rev (takeWhile (\<lambda>d. d \<noteq> nl) (rev W))"
  have n: "n = length taken"
    using assms by (simp add: match_blank_def Let_def taken_def W_def split: if_splits)
  have "rev (takeWhile (\<lambda>d. d \<noteq> nl) (rev W) @ dropWhile (\<lambda>d. d \<noteq> nl) (rev W)) = W"
    by (simp only: takeWhile_dropWhile_id rev_rev_ident)
  then have W: "W = taken @ rest"
    by (simp only: rev_append taken_def rest_def)
  have "cs = W @ dropWhile is_ws cs"
    by (simp add: W_def)
  then have cs: "cs = taken @ rest @ dropWhile is_ws cs"
    using W by simp
  have 1: "drop n cs = rest @ dropWhile is_ws cs"
    by (subst cs) (simp add: n)
  have "set rest \<subseteq> set W" using W by auto
  then have 2: "list_all is_ws rest"
    by (auto simp add: W_def list_all_iff dest: set_takeWhileD)
  have 3: "nl \<notin> set rest"
    by (auto simp add: rest_def dest: set_takeWhileD)
  from 1 2 3 show ?thesis by blast
qed

lemma takeWhile_ws_rest:
  "list_all is_ws rest \<Longrightarrow> takeWhile is_ws (rest @ dropWhile is_ws cs) = rest"
  by (induction rest) (auto simp add: takeWhile_dropWhile_Nil)

lemma replace_blank_keeps_ws_prefix:
  "nl \<notin> set (takeWhile is_ws cs) \<Longrightarrow>
   takeWhile is_ws (replace_all match_blank [nl] cs) = takeWhile is_ws cs"
proof (induction cs)
  case Nil
  then show ?case by (simp add: match_blank_Nil)
next
  case (Cons c cs)
  have "c \<noteq> nl" using Cons.prems is_ws_nl by (auto split: if_splits)
  then show ?case using Cons by (auto simp add: match_blank_not_nl split: if_splits)
qed

lemma replace_blank_no_inner_blank:
  "no_inner_blank (replace_all match_blank [nl] t)"
proof (induction match_blank "[nl]" t rule: replace_all.induct)
  case 1
  then show ?case by (simp add: match_blank_Nil)
next
  case (2 c cs)
  show ?case
  proof (cases "match_blank (c # cs)")
    case None
    then have "c = nl \<Longrightarrow> nl \<notin> set (takeWhile is_ws cs)"
      using match_blank_nl_None by blast
    then show ?thesis using None 2(1)
      by (auto simp add: replace_blank_keeps_ws_prefix)
  next
    case (Some k)
    then obtain n where k: "k = Suc n" using match_blank_not_0 [of "c # cs"] by (cases k) auto
    have c: "c = nl" using Some match_blank_not_nl by (cases "c = nl") auto
    obtain rest where r: "drop n cs = rest @ dropWhile is_ws cs" "list_all is_ws rest" "nl \<notin> set rest"
      using match_blank_nl_Some Some k c by blast
    have "nl \<notin> set (takeWhile is_ws (drop n cs))"
      using r by (simp add: takeWhile_ws_rest)
    then have "nl \<notin> set (takeWhile is_ws (replace_all match_blank [nl] (drop n cs)))"
      by (simp add: replace_blank_keeps_ws_prefix)
    then show ?thesis using Some k 2(3) by simp
  qed
qed

subsection \<open>Collapsing spaces and tabs\<close>

lemma match_hws_Nil: "match_hws [] = None"
  by (simp add: match_hws_def)

lemma match_hws_no: "\<not> is_hws c \<Longrightarrow> match_hws (c # cs) = None"
  by (simp add: match_hws_def)

lemma match_hws_yes: "is_hws c \<Longrightarrow> match_hws (c # cs) = Some (Suc (length (takeWhile is_hws cs)))"
  by (simp add: match_hws_def)

lemma replace_hws_Cons:
  "replace_all match_hws [space] (c # cs) =
     (if is_hws c then space # replace_all match_hws [space] (dropWhile is_hws cs)
      else c # replace_all match_hws [space] cs)"
  by (simp add: match_hws_no match_hws_yes drop_length_takeWhile)

lemma replace_hws_Nil: "replace_all match_hws [space] [] = []"
  by (simp add: match_hws_Nil)

declare replace_all.simps [simp del]

lemma hws_run_Cons:
  "hws_run (a # xs) = ((is_hws a \<and> xs \<noteq> [] \<and> is_hws (hd xs)) \<or> hws_run xs)"
  by (cases xs) auto

lemma replace_hws_head:
  "s = [] \<or> \<not> is_hws (hd s) \<Longrightarrow>
   replace_all match_hws [space] s = [] \<or> \<not> is_hws (hd (replace_all match_hws [space] s))"
  by (cases s) (auto simp add: replace_hws_Nil replace_hws_Cons)

lemma replace_hws_no_run: "\<not> hws_run (replace_all match_hws [space] s)"
proof (induction "length s" arbitrary: s rule: less_induct)
  case less
  show ?case
  proof (cases s)
    case Nil
    then show ?thesis by (simp add: replace_hws_Nil)
  next
    case (Cons c cs)
    show ?thesis
    proof (cases "is_hws c")
      case True
      have "length (dropWhile is_hws cs) < length s"
        using Cons length_dropWhile_le [of is_hws cs] by simp
      then have "\<not> hws_run (replace_all match_hws [space] (dropWhile is_hws cs))"
        by (rule less)
      moreover have "replace_all match_hws [space] (dropWhile is_hws cs) = []
          \<or> \<not> is_hws (hd (replace_all match_hws [space] (dropWhile is_hws cs)))"
        by (rule replace_hws_head) (rule dropWhile_head)
      ultimately show ?thesis using Cons True
        by (auto simp add: replace_hws_Cons hws_run_Cons)
    next
      case False
      have "\<not> hws_run (replace_all match_hws [space] cs)"
        by (rule less) (simp add: Cons)
      then show ?thesis using Cons False
        by (simp add: replace_hws_Cons hws_run_Cons)
    qed
  qed
qed

lemma takeWhile_ws_hws:
  "nl \<in> set (takeWhile is_ws cs) \<longleftrightarrow> nl \<in> set (takeWhile is_ws (dropWhile is_hws cs))"
  by (induction cs) (auto simp add: hws_ws not_hws_nl)

lemma replace_hws_nl_in_ws:
  "nl \<in> set (takeWhile is_ws (replace_all match_hws [space] s)) \<longleftrightarrow>
   nl \<in> set (takeWhile is_ws s)"
proof (induction "length s" arbitrary: s rule: less_induct)
  case less
  show ?case
  proof (cases s)
    case Nil
    then show ?thesis by (simp add: replace_hws_Nil)
  next
    case (Cons c cs)
    show ?thesis
    proof (cases "is_hws c")
      case True
      have "length (dropWhile is_hws cs) < length s"
        using Cons length_dropWhile_le [of is_hws cs] by simp
      then have "nl \<in> set (takeWhile is_ws (replace_all match_hws [space] (dropWhile is_hws cs)))
          \<longleftrightarrow> nl \<in> set (takeWhile is_ws (dropWhile is_hws cs))"
        by (rule less)
      moreover have "is_ws c" "c \<noteq> nl" "is_ws space" "nl \<noteq> space"
        using True hws_ws hws_not_nl space_not_nl by (auto simp add: is_hws_def)
      ultimately show ?thesis using Cons True takeWhile_ws_hws [of cs]
        by (simp add: replace_hws_Cons)
    next
      case False
      have "nl \<in> set (takeWhile is_ws (replace_all match_hws [space] cs))
          \<longleftrightarrow> nl \<in> set (takeWhile is_ws cs)"
        by (rule less) (simp add: Cons)
      then show ?thesis using Cons False
        by (simp add: replace_hws_Cons)
    qed
  qed
qed

lemma no_inner_blank_dropWhile: "no_inner_blank s \<Longrightarrow> no_inner_blank (dropWhile P s)"
  by (induction s) auto

lemma replace_hws_no_inner_blank:
  "no_inner_blank s \<Longrightarrow> no_inner_blank (replace_all match_hws [space] s)"
proof (induction "length s" arbitrary: s rule: less_induct)
  case less
  show ?case
  proof (cases s)
    case Nil
    then show ?thesis by (simp add: replace_hws_Nil)
  next
    case (Cons c cs)
    have cs: "no_inner_blank cs" using less.prems Cons by simp
    show ?thesis
    proof (cases "is_hws c")
      case True
      have "length (dropWhile is_hws cs) < length s"
        using Cons length_dropWhile_le [of is_hws cs] by simp
      then have "no_inner_blank (replace_all match_hws [space] (dropWhile is_hws cs))"
        using cs by (intro less no_inner_blank_dropWhile)
      then show ?thesis using Cons True
        by (simp add: replace_hws_Cons space_not_nl)
    next
      case False
      have "no_inner_blank (replace_all match_hws [space] cs)"
        using cs by (intro less) (simp add: Cons)
      then show ?thesis using Cons False less.prems
        by (auto simp add: replace_hws_Cons replace_hws_nl_in_ws)
    qed
  qed
qed

subsection \<open>Trimming\<close>

lemma trim_factor: "\<exists>pre post. s = pre @ trim s @ post"
proof -
  let ?d = "dropWhile is_ws s"
  have "rev ?d = takeWhile is_ws (rev ?d) @ dropWhile is_ws (rev ?d)"
    by simp
  then have "rev (rev ?d) = rev (takeWhile is_ws (rev ?d) @ dropWhile is_ws (rev ?d))"
    by (rule arg_cong)
  then have "?d = trim s @ rev (takeWhile is_ws (rev ?d))"
    by (simp only: rev_rev_ident rev_append trim_def)
  moreover have "s = takeWhile is_ws s @ ?d"
    by simp
  ultimately have "s = takeWhile is_ws s @ trim s @ rev (takeWhile is_ws (rev ?d))"
    by simp
  then show ?thesis by blast
qed

lemma trim_hd: "trim s \<noteq> [] \<Longrightarrow> \<not> is_ws (hd (trim s))"
proof -
  assume a: "trim s \<noteq> []"
  let ?d = "dropWhile is_ws s"
  have "rev (takeWhile is_ws (rev ?d) @ dropWhile is_ws (rev ?d)) = ?d"
    by (simp only: takeWhile_dropWhile_id rev_rev_ident)
  then have d: "?d = trim s @ rev (takeWhile is_ws (rev ?d))"
    by (simp only: rev_append trim_def)
  then have "hd ?d = hd (trim s)"
    using a by (metis hd_append2)
  moreover have "?d \<noteq> []" using d a by (metis append_is_Nil_conv)
  ultimately show ?thesis using hd_dropWhile [of is_ws s] by simp
qed

lemma trim_last: "trim s \<noteq> [] \<Longrightarrow> \<not> is_ws (last (trim s))"
proof -
  assume a: "trim s \<noteq> []"
  let ?e = "dropWhile is_ws (rev (dropWhile is_ws s))"
  have e: "?e \<noteq> []" using a by (simp add: trim_def)
  have "last (trim s) = hd ?e"
    using e by (simp add: trim_def last_rev)
  then show ?thesis using hd_dropWhile [OF e] by simp
qed

lemma untrimmed_iff: "untrimmed s \<longleftrightarrow> s \<noteq> [] \<and> (is_ws (hd s) \<or> is_ws (last s))"
  by (cases s) (simp_all add: untrimmed_def)

lemma trim_not_untrimmed: "\<not> untrimmed (trim s)"
  using trim_hd trim_last by (auto simp add: untrimmed_iff)

lemma hws_run_append_left: "hws_run xs \<Longrightarrow> hws_run (xs @ ys)"
  by (induction xs rule: hws_run.induct) auto

lemma hws_run_append_right: "hws_run ys \<Longrightarrow> hws_run (xs @ ys)"
  by (induction xs) (auto simp add: hws_run_Cons)

lemma hws_run_appendI:
  "\<not> hws_run xs \<Longrightarrow> \<not> hws_run ys \<Longrightarrow> ys = [] \<or> \<not> is_hws (hd ys) \<Longrightarrow> \<not> hws_run (xs @ ys)"
  by (induction xs) (auto simp add: hws_run_Cons hd_append)

lemma no_inner_blank_append_left: "no_inner_blank (xs @ ys) \<Longrightarrow> no_inner_blank xs"
  using takeWhile_prefix_subset by (induction xs) fastforce+

lemma no_inner_blank_append_right: "no_inner_blank (xs @ ys) \<Longrightarrow> no_inner_blank ys"
  by (induction xs) auto

lemma no_inner_blank_appendI:
  "no_inner_blank xs \<Longrightarrow> nl \<notin> set ys \<Longrightarrow> no_inner_blank (xs @ ys)"
proof (induction xs)
  case Nil
  then show ?case by (induction ys) (auto dest: set_takeWhileD)
next
  case (Cons c cs)
  then show ?case using takeWhile_append_subset [of is_ws cs ys] by auto
qed

lemma clean_no_inner_blank: "no_inner_blank (clean t)"
proof -
  have "no_inner_blank (replace_all match_hws [space] (replace_all match_blank [nl] t))"
    by (intro replace_hws_no_inner_blank replace_blank_no_inner_blank)
  then show ?thesis
    using trim_factor [of "replace_all match_hws [space] (replace_all match_blank [nl] t)"]
    unfolding clean_def
    by (metis no_inner_blank_append_left no_inner_blank_append_right)
qed

lemma clean_no_hws_run: "\<not> hws_run (clean t)"
proof -
  have "\<not> hws_run (replace_all match_hws [space] (replace_all match_blank [nl] t))"
    by (rule replace_hws_no_run)
  then show ?thesis
    using trim_factor [of "replace_all match_hws [space] (replace_all match_blank [nl] t)"]
    unfolding clean_def
    by (metis hws_run_append_left hws_run_append_right)
qed

lemma clean_not_untrimmed: "\<not> untrimmed (clean t)"
  by (simp add: clean_def trim_not_untrimmed)

subsection \<open>Truncation and lines\<close>

lemma marker_facts:
  "truncation_marker \<noteq> []" "nl \<notin> set truncation_marker" "\<not> hws_run truncation_marker"
  "\<not> is_hws (hd truncation_marker)" "\<not> is_ws (last truncation_marker)"
  "\<not> is_ws (hd truncation_marker)"
  by (simp_all add: truncation_marker_def js_def nl_def is_hws_def is_ws_def space_def tab_def)

lemma no_inner_blank_take: "no_inner_blank s \<Longrightarrow> no_inner_blank (take n s)"
  using no_inner_blank_append_left [of "take n s" "drop n s"] by simp

lemma hws_run_take: "\<not> hws_run s \<Longrightarrow> \<not> hws_run (take n s)"
  using hws_run_append_left [of "take n s" "drop n s"] by auto

lemma truncated_no_inner_blank:
  "no_inner_blank s \<Longrightarrow> no_inner_blank (take n s @ truncation_marker)"
  by (intro no_inner_blank_appendI no_inner_blank_take marker_facts)

lemma truncated_no_hws_run:
  "\<not> hws_run s \<Longrightarrow> \<not> hws_run (take n s @ truncation_marker)"
  by (intro hws_run_appendI hws_run_take disjI2 marker_facts)

lemma truncated_not_untrimmed:
  "\<not> untrimmed s \<Longrightarrow> 0 < n \<Longrightarrow> \<not> untrimmed (take n s @ truncation_marker)"
  using marker_facts(1,5,6)
  by (cases s; cases n) (auto simp add: untrimmed_iff)

lemma split_lines_not_Nil: "split_lines s \<noteq> []"
  by (induction s) (auto split: list.splits)

lemma hd_split_lines: "hd (split_lines s) = takeWhile (\<lambda>c. c \<noteq> nl) s"
  by (induction s) (auto split: list.splits simp add: split_lines_not_Nil)

lemma tl_split_lines_Cons:
  "tl (split_lines (c # cs)) = (if c = nl then split_lines cs else tl (split_lines cs))"
  by (auto split: list.splits simp add: split_lines_not_Nil)

lemma blank_first_line:
  assumes "blank (takeWhile (\<lambda>c. c \<noteq> nl) cs)" and "nl \<notin> set (takeWhile is_ws cs)"
  shows "list_all is_ws cs"
  using assms
proof (induction cs)
  case Nil
  then show ?case by simp
next
  case (Cons c cs)
  then show ?case using is_ws_nl by (auto simp add: blank_def split: if_splits)
qed

lemma later_lines_not_blank:
  "no_inner_blank s \<Longrightarrow> s \<noteq> [] \<Longrightarrow> \<not> is_ws (last s) \<Longrightarrow>
   \<forall>l \<in> set (tl (split_lines s)). \<not> blank l"
proof (induction s)
  case Nil
  then show ?case by simp
next
  case (Cons c cs)
  show ?case
  proof (cases "cs = []")
    case True
    then have "c \<noteq> nl" using Cons.prems is_ws_nl by auto
    then show ?thesis using True by simp
  next
    case False
    then have l: "\<not> is_ws (last cs)" using Cons.prems by simp
    have ih: "\<forall>l \<in> set (tl (split_lines cs)). \<not> blank l"
      using Cons False l by simp
    show ?thesis
    proof (cases "c = nl")
      case True
      then have "nl \<notin> set (takeWhile is_ws cs)" using Cons.prems by simp
      then have "blank (hd (split_lines cs)) \<Longrightarrow> list_all is_ws cs"
        using blank_first_line by (simp add: hd_split_lines)
      then have "\<not> blank (hd (split_lines cs))"
        using l False by (auto simp add: list_all_iff)
      then have "\<forall>l \<in> set (split_lines cs). \<not> blank l"
        using ih split_lines_not_Nil [of cs] by (cases "split_lines cs") auto
      then show ?thesis using True by (simp add: tl_split_lines_Cons del: split_lines.simps)
    next
      case False
      then show ?thesis using ih by (simp add: tl_split_lines_Cons del: split_lines.simps)
    qed
  qed
qed

lemma first_line_not_blank:
  "s \<noteq> [] \<Longrightarrow> \<not> is_ws (hd s) \<Longrightarrow> \<not> blank (hd (split_lines s))"
  using is_ws_nl by (cases s) (auto simp add: hd_split_lines blank_def simp del: split_lines.simps)

lemma no_blank_no_two: "\<forall>l \<in> set ls. \<not> blank l \<Longrightarrow> \<not> two_blank_lines ls"
  by (induction ls rule: two_blank_lines.induct) auto

lemma no_two_blank_lines:
  assumes "no_inner_blank s" and "\<not> untrimmed s"
  shows "\<not> two_blank_lines (split_lines s)"
proof (cases "s = []")
  case True
  then show ?thesis by simp
next
  case False
  then have e: "\<not> is_ws (hd s)" "\<not> is_ws (last s)"
    using assms(2) by (auto simp add: untrimmed_iff)
  have "\<not> blank (hd (split_lines s))"
    using False e by (intro first_line_not_blank)
  moreover have "\<forall>l \<in> set (tl (split_lines s)). \<not> blank l"
    using False e assms(1) by (intro later_lines_not_blank)
  ultimately have "\<forall>l \<in> set (split_lines s). \<not> blank l"
    using split_lines_not_Nil [of s] by (cases "split_lines s") auto
  then show ?thesis by (rule no_blank_no_two)
qed

subsection \<open>The normalisation, line by line\<close>

lemma replace_hws_collapse: "replace_all match_hws [space] s = collapse_spaces s"
  by (induction s rule: collapse_spaces.induct) (simp_all add: replace_hws_Nil replace_hws_Cons)

lemma join_Cons_Cons: "join sep ((c # l) # rest) = c # join sep (l # rest)"
  by (cases rest) auto

lemma join_Nil_Cons: "xs \<noteq> [] \<Longrightarrow> join sep ([] # xs) = sep @ join sep xs"
  by (cases xs) auto

lemma drop_inner_blank_Nil_iff: "drop_inner_blank xs = [] \<longleftrightarrow> xs = []"
  by (induction xs rule: drop_inner_blank.induct) auto

lemma split_lines_Cons:
  "split_lines (c # cs) =
     (if c = nl then [] # split_lines cs
      else (c # hd (split_lines cs)) # tl (split_lines cs))"
  using split_lines_not_Nil [of cs] by (cases "split_lines cs") auto

lemma tl_split_lines_Nil_iff: "tl (split_lines s) = [] \<longleftrightarrow> nl \<notin> set s"
proof (induction s)
  case Nil
  then show ?case by simp
next
  case (Cons c cs)
  then show ?case
    using split_lines_not_Nil [of cs]
    by (auto simp add: split_lines_Cons simp del: split_lines.simps)
qed

lemma drop_inner_blank_first:
  assumes "nl \<notin> set (takeWhile is_ws s)"
  shows "drop_inner_blank (split_lines s) =
           hd (split_lines s) # drop_inner_blank (tl (split_lines s))"
proof (cases "tl (split_lines s)")
  case Nil
  then show ?thesis using split_lines_not_Nil [of s] by (cases "split_lines s") auto
next
  case (Cons m ms)
  then have n: "nl \<in> set s" using tl_split_lines_Nil_iff [of s] by auto
  have "\<not> blank (hd (split_lines s))"
  proof
    assume "blank (hd (split_lines s))"
    then have "list_all is_ws s"
      using assms blank_first_line by (simp add: hd_split_lines)
    then have "\<forall>x \<in> set s. is_ws x" by (simp add: list_all_iff)
    then have "takeWhile is_ws s = s" by (rule takeWhile_eq_all_conv [THEN iffD2])
    with assms n show False by metis
  qed
  then show ?thesis using Cons split_lines_not_Nil [of s] by (cases "split_lines s") auto
qed

lemma match_blank_nl_taken:
  assumes "match_blank (nl # cs) = Some (Suc n)"
  shows "\<exists>w. take n cs = w @ [nl] \<and> list_all is_ws w"
proof -
  define W where "W = takeWhile is_ws cs"
  define given where "given = dropWhile (\<lambda>d. d \<noteq> nl) (rev W)"
  define taken where "taken = rev given"
  define rest where "rest = rev (takeWhile (\<lambda>d. d \<noteq> nl) (rev W))"
  have ne: "given \<noteq> []" and n: "n = length taken"
    using assms
    by (auto simp add: match_blank_def Let_def taken_def given_def W_def split: if_splits)
  have "rev (takeWhile (\<lambda>d. d \<noteq> nl) (rev W) @ dropWhile (\<lambda>d. d \<noteq> nl) (rev W)) = W"
    by (simp only: takeWhile_dropWhile_id rev_rev_ident)
  then have W: "W = taken @ rest"
    by (simp only: rev_append taken_def rest_def given_def)
  have "cs = W @ dropWhile is_ws cs"
    by (simp add: W_def)
  then have "cs = taken @ rest @ dropWhile is_ws cs"
    using W by simp
  then have t: "take n cs = taken"
    using n by (metis append_eq_conv_conj)
  have "hd given = nl"
    using ne hd_dropWhile [of "\<lambda>d. d \<noteq> nl" "rev W"] by (simp add: given_def)
  then have "last taken = nl"
    using ne by (simp add: taken_def last_rev)
  moreover have "taken \<noteq> []"
    using ne by (simp add: taken_def)
  ultimately have "taken = butlast taken @ [nl]"
    by (metis append_butlast_last_id)
  moreover have "set taken \<subseteq> set W"
    using W by auto
  then have "list_all is_ws taken"
    by (auto simp add: W_def list_all_iff dest: set_takeWhileD)
  then have "list_all is_ws (butlast taken)"
    by (auto simp add: list_all_iff dest: in_set_butlastD)
  ultimately show ?thesis using t by metis
qed

lemma blank_prefix_lines:
  "list_all is_ws w \<Longrightarrow>
   \<exists>bs. bs \<noteq> [] \<and> list_all blank bs \<and> split_lines (w @ nl # s) = bs @ split_lines s"
proof (induction w)
  case Nil
  have "split_lines ([] @ nl # s) = [[]] @ split_lines s" by simp
  moreover have "list_all blank [[]]" by (simp add: blank_def)
  ultimately show ?case by blast
next
  case (Cons x w)
  then obtain bs where bs: "bs \<noteq> []" "list_all blank bs"
      "split_lines (w @ nl # s) = bs @ split_lines s"
    by auto
  show ?case
  proof (cases "x = nl")
    case True
    have "split_lines ((x # w) @ nl # s) = ([] # bs) @ split_lines s"
      using True bs(3) by (simp add: split_lines_Cons del: split_lines.simps)
    moreover have "list_all blank ([] # bs)" using bs(2) by (simp add: blank_def)
    ultimately show ?thesis by blast
  next
    case False
    obtain b bs' where b: "bs = b # bs'" using bs(1) by (cases bs) auto
    have "split_lines ((x # w) @ nl # s) = ((x # b) # bs') @ split_lines s"
      using False bs(3) b by (simp add: split_lines_Cons del: split_lines.simps)
    moreover have "list_all blank ((x # b) # bs')"
      using bs(2) b Cons.prems by (simp add: blank_def)
    ultimately show ?thesis by blast
  qed
qed

lemma drop_inner_blank_prefix:
  "list_all blank bs \<Longrightarrow> xs \<noteq> [] \<Longrightarrow> drop_inner_blank (bs @ xs) = drop_inner_blank xs"
proof (induction bs)
  case Nil
  then show ?case by simp
next
  case (Cons b bs)
  then obtain y ys where "bs @ xs = y # ys" by (cases "bs @ xs") auto
  then show ?case using Cons by simp
qed

lemma replace_blank_lines:
  "replace_all match_blank [nl] t =
     join [nl] (hd (split_lines t) # drop_inner_blank (tl (split_lines t)))"
proof (induction match_blank "[nl]" t rule: replace_all.induct)
  case 1
  then show ?case by (simp add: replace_all.simps match_blank_Nil)
next
  case (2 c cs)
  let ?L = "split_lines cs"
  show ?case
  proof (cases "match_blank (c # cs)")
    case None
    then have r: "replace_all match_blank [nl] (c # cs) =
        c # join [nl] (hd ?L # drop_inner_blank (tl ?L))"
      using 2(1) by (simp add: replace_all.simps)
    show ?thesis
    proof (cases "c = nl")
      case True
      then have "nl \<notin> set (takeWhile is_ws cs)"
        using None match_blank_nl_None by blast
      then have "drop_inner_blank ?L = hd ?L # drop_inner_blank (tl ?L)"
        by (rule drop_inner_blank_first)
      then show ?thesis
        using r True split_lines_not_Nil [of cs]
        by (simp add: split_lines_Cons join_Nil_Cons del: split_lines.simps)
    next
      case False
      then show ?thesis
        using r by (simp add: split_lines_Cons join_Cons_Cons del: split_lines.simps)
    qed
  next
    case (Some k)
    then obtain n where k: "k = Suc n"
      using match_blank_not_0 [of "c # cs"] by (cases k) auto
    have c: "c = nl"
      using Some match_blank_not_nl by (cases "c = nl") auto
    let ?cs' = "drop n cs"
    have r: "replace_all match_blank [nl] (c # cs) =
        nl # join [nl] (hd (split_lines ?cs') # drop_inner_blank (tl (split_lines ?cs')))"
      using Some k 2(3) by (simp add: replace_all.simps)
    obtain w where w: "take n cs = w @ [nl]" "list_all is_ws w"
      using match_blank_nl_taken Some k c by blast
    have "cs = take n cs @ ?cs'" by simp
    then have "cs = w @ nl # ?cs'" using w(1) by simp
    then obtain bs where bs: "bs \<noteq> []" "list_all blank bs" "?L = bs @ split_lines ?cs'"
      using blank_prefix_lines [OF w(2), of ?cs'] by metis
    have d: "drop_inner_blank ?L = drop_inner_blank (split_lines ?cs')"
      using bs split_lines_not_Nil by (simp add: drop_inner_blank_prefix)
    obtain rest where "?cs' = rest @ dropWhile is_ws cs" "list_all is_ws rest" "nl \<notin> set rest"
      using match_blank_nl_Some Some k c by blast
    then have "nl \<notin> set (takeWhile is_ws ?cs')"
      by (simp add: takeWhile_ws_rest)
    then have "drop_inner_blank (split_lines ?cs') =
        hd (split_lines ?cs') # drop_inner_blank (tl (split_lines ?cs'))"
      by (rule drop_inner_blank_first)
    then show ?thesis
      using r c d split_lines_not_Nil [of cs]
      by (simp add: split_lines_Cons join_Nil_Cons del: split_lines.simps)
  qed
qed

lemma dropWhile_hws_append_nl:
  "dropWhile is_hws (xs @ nl # ys) = dropWhile is_hws xs @ nl # ys"
  by (induction xs) (auto simp add: not_hws_nl)

lemma collapse_spaces_append_nl:
  "collapse_spaces (xs @ nl # ys) = collapse_spaces xs @ nl # collapse_spaces ys"
proof (induction xs rule: collapse_spaces.induct)
  case 1
  then show ?case by (simp add: not_hws_nl)
next
  case (2 c cs)
  then show ?case by (simp add: dropWhile_hws_append_nl)
qed

lemma collapse_spaces_join:
  "collapse_spaces (join [nl] ls) = join [nl] (map collapse_spaces ls)"
  by (induction "[nl]" ls rule: join.induct) (simp_all add: collapse_spaces_append_nl)

lemma collapse_spaces_subset: "set (collapse_spaces l) \<subseteq> insert space (set l)"
proof (induction l rule: collapse_spaces.induct)
  case 1
  then show ?case by simp
next
  case (2 c cs)
  then show ?case using set_dropWhileD [of _ is_hws cs] by (auto split: if_splits)
qed

lemma is_ws_space: "is_ws space"
  by (simp add: is_ws_def space_def)

lemma blank_collapse_spaces: "blank l \<Longrightarrow> blank (collapse_spaces l)"
  using collapse_spaces_subset [of l] is_ws_space by (auto simp add: blank_def list_all_iff)

lemma trim_ws_prefix: "list_all is_ws w \<Longrightarrow> trim (w @ s) = trim s"
proof -
  assume "list_all is_ws w"
  then have "dropWhile is_ws (w @ s) = dropWhile is_ws s"
    by (induction w) auto
  then show ?thesis by (simp add: trim_def)
qed

lemma trim_all_ws: "list_all is_ws w \<Longrightarrow> trim w = []"
  using trim_ws_prefix [of w "[]"] by (simp add: trim_def)

lemma trim_ws_suffix: "list_all is_ws w \<Longrightarrow> trim (s @ w) = trim s"
proof -
  assume w: "list_all is_ws w"
  then have r: "list_all is_ws (rev w)" by (simp add: list_all_iff)
  show ?thesis
  proof (cases "list_all is_ws s")
    case True
    then have "list_all is_ws (s @ w)" using w by simp
    then show ?thesis using True by (simp only: trim_all_ws)
  next
    case False
    then have "dropWhile is_ws (s @ w) = dropWhile is_ws s @ w"
      by (induction s) auto
    moreover have "dropWhile is_ws (rev w @ ys) = dropWhile is_ws ys" for ys
      using r by (induction "rev w" arbitrary: w) (auto simp add: list_all_iff dropWhile_append)
    ultimately show ?thesis by (simp add: trim_def)
  qed
qed

lemma trim_join_blank_first: "blank b \<Longrightarrow> trim (join [nl] (b # ys)) = trim (join [nl] ys)"
proof (cases ys)
  case Nil
  assume "blank b"
  then show ?thesis using Nil trim_all_ws [of b] by (simp add: blank_def trim_def)
next
  case (Cons y ys')
  assume "blank b"
  then have "list_all is_ws (b @ [nl])" by (simp add: blank_def is_ws_nl)
  then have "trim ((b @ [nl]) @ join [nl] (y # ys')) = trim (join [nl] (y # ys'))"
    by (rule trim_ws_prefix)
  then show ?thesis using Cons by simp
qed

lemma trim_join_blank_last: "blank b \<Longrightarrow> trim (join [nl] (ys @ [b])) = trim (join [nl] ys)"
proof (cases "ys = []")
  case True
  assume "blank b"
  then show ?thesis using True trim_all_ws [of b] by (simp add: blank_def trim_def)
next
  case False
  assume "blank b"
  then have "list_all is_ws ([nl] @ b)" by (simp add: blank_def is_ws_nl)
  then have "trim (join [nl] ys @ [nl] @ b) = trim (join [nl] ys)"
    by (rule trim_ws_suffix)
  then show ?thesis using False by (simp add: join_append)
qed

lemma drop_inner_blank_snoc:
  "drop_inner_blank (ms @ [z]) = filter (\<lambda>l. \<not> blank l) ms @ [z]"
proof (induction ms)
  case Nil
  then show ?case by simp
next
  case (Cons m ms)
  then obtain y ys where "ms @ [z] = y # ys" by (cases "ms @ [z]") auto
  then show ?case using Cons by auto
qed

text \<open>Dropping the blank lines first and last, where the other blank lines are gone.\<close>

lemma trim_join_ends:
  "trim (join [nl] (map collapse_spaces (l # drop_inner_blank ms))) =
   trim (join [nl] (map collapse_spaces (filter (\<lambda>l. \<not> blank l) (l # ms))))"
proof (cases "ms = []")
  case True
  then show ?thesis
    using trim_join_blank_first [of "collapse_spaces l" "[]"] blank_collapse_spaces [of l]
    by auto
next
  case False
  then obtain ms' z where ms: "ms = ms' @ [z]" by (metis append_butlast_last_id)
  let ?M = "map collapse_spaces (filter (\<lambda>l. \<not> blank l) ms')"
  let ?l = "collapse_spaces l" and ?z = "collapse_spaces z"
  have d: "map collapse_spaces (l # drop_inner_blank ms) = ?l # ?M @ [?z]"
    by (simp add: ms drop_inner_blank_snoc)
  have 1: "trim (join [nl] (?l # ?M @ [?z])) =
      trim (join [nl] ((if blank l then [] else [?l]) @ ?M @ [?z]))"
    using trim_join_blank_first [of ?l "?M @ [?z]"] blank_collapse_spaces [of l] by auto
  have 2: "trim (join [nl] (((if blank l then [] else [?l]) @ ?M) @ [?z])) =
      trim (join [nl] (((if blank l then [] else [?l]) @ ?M) @ (if blank z then [] else [?z])))"
    using trim_join_blank_last [of ?z "(if blank l then [] else [?l]) @ ?M"]
      blank_collapse_spaces [of z]
    by auto
  have "map collapse_spaces (filter (\<lambda>l. \<not> blank l) (l # ms)) =
      ((if blank l then [] else [?l]) @ ?M) @ (if blank z then [] else [?z])"
    by (simp add: ms)
  then show ?thesis using d 1 2 by simp
qed

lemma clean_normalize_spec: "clean t = normalize_spec t"
proof -
  obtain l ms where L: "split_lines t = l # ms"
    using split_lines_not_Nil [of t] by (cases "split_lines t") auto
  have "clean t = trim (collapse_spaces (join [nl] (l # drop_inner_blank ms)))"
    by (simp add: clean_def replace_hws_collapse replace_blank_lines L)
  also have "\<dots> = trim (join [nl] (map collapse_spaces (l # drop_inner_blank ms)))"
    by (simp only: collapse_spaces_join)
  also have "\<dots> = trim (join [nl] (map collapse_spaces (filter (\<lambda>l. \<not> blank l) (l # ms))))"
    by (rule trim_join_ends)
  finally show ?thesis by (simp add: normalize_spec_def L)
qed

subsection \<open>What the normalisation keeps\<close>

lemma filter_not_ws_all_ws: "list_all is_ws w \<Longrightarrow> filter (\<lambda>x. \<not> is_ws x) w = []"
  by (induction w) auto

lemma trim_ws_around:
  "\<exists>pre post. s = pre @ trim s @ post \<and> list_all is_ws pre \<and> list_all is_ws post"
proof -
  let ?d = "dropWhile is_ws s"
  let ?post = "rev (takeWhile is_ws (rev ?d))"
  have "rev (takeWhile is_ws (rev ?d) @ dropWhile is_ws (rev ?d)) = ?d"
    by (simp only: takeWhile_dropWhile_id rev_rev_ident)
  then have "?d = trim s @ ?post"
    by (simp only: rev_append trim_def)
  moreover have "s = takeWhile is_ws s @ ?d"
    by simp
  ultimately have "s = takeWhile is_ws s @ trim s @ ?post"
    by simp
  moreover have "list_all is_ws (takeWhile is_ws s)" "list_all is_ws ?post"
    by (auto simp add: list_all_iff dest: set_takeWhileD)
  ultimately show ?thesis by blast
qed

lemma trim_keeps_not_ws: "filter (\<lambda>x. \<not> is_ws x) (trim s) = filter (\<lambda>x. \<not> is_ws x) s"
proof -
  obtain pre post where p: "s = pre @ trim s @ post" "list_all is_ws pre" "list_all is_ws post"
    using trim_ws_around by blast
  have "filter (\<lambda>x. \<not> is_ws x) s =
      filter (\<lambda>x. \<not> is_ws x) pre @ filter (\<lambda>x. \<not> is_ws x) (trim s)
        @ filter (\<lambda>x. \<not> is_ws x) post"
    by (subst p(1)) simp
  then show ?thesis using p(2,3) by (simp add: filter_not_ws_all_ws)
qed

lemma filter_not_ws_dropWhile_hws:
  "filter (\<lambda>x. \<not> is_ws x) (dropWhile is_hws cs) = filter (\<lambda>x. \<not> is_ws x) cs"
  by (induction cs) (auto simp add: hws_ws)

lemma collapse_keeps_not_ws:
  "filter (\<lambda>x. \<not> is_ws x) (replace_all match_hws [space] s) = filter (\<lambda>x. \<not> is_ws x) s"
proof -
  have "filter (\<lambda>x. \<not> is_ws x) (collapse_spaces s) = filter (\<lambda>x. \<not> is_ws x) s"
    by (induction s rule: collapse_spaces.induct)
       (auto simp add: is_ws_space hws_ws filter_not_ws_dropWhile_hws)
  then show ?thesis by (simp add: replace_hws_collapse)
qed

lemma replace_blank_keeps_not_ws:
  "filter (\<lambda>x. \<not> is_ws x) (replace_all match_blank [nl] t) = filter (\<lambda>x. \<not> is_ws x) t"
proof (induction match_blank "[nl]" t rule: replace_all.induct)
  case 1
  then show ?case by (simp add: replace_all.simps match_blank_Nil)
next
  case (2 c cs)
  show ?case
  proof (cases "match_blank (c # cs)")
    case None
    then show ?thesis using 2(1) by (simp add: replace_all.simps)
  next
    case (Some k)
    then obtain n where k: "k = Suc n"
      using match_blank_not_0 [of "c # cs"] by (cases k) auto
    have c: "c = nl"
      using Some match_blank_not_nl by (cases "c = nl") auto
    obtain w where w: "take n cs = w @ [nl]" "list_all is_ws w"
      using match_blank_nl_taken Some k c by blast
    have "filter (\<lambda>x. \<not> is_ws x) (take n cs @ drop n cs) =
        filter (\<lambda>x. \<not> is_ws x) (drop n cs)"
      using w by (simp only: filter_append) (simp add: filter_not_ws_all_ws is_ws_nl)
    then have "filter (\<lambda>x. \<not> is_ws x) cs = filter (\<lambda>x. \<not> is_ws x) (drop n cs)"
      by simp
    then show ?thesis
      using Some k c 2(3) by (simp add: replace_all.simps is_ws_nl)
  qed
qed

lemma clean_keeps_not_ws: "filter (\<lambda>x. \<not> is_ws x) (clean t) = filter (\<lambda>x. \<not> is_ws x) t"
  by (simp add: clean_def trim_keeps_not_ws collapse_keeps_not_ws replace_blank_keeps_not_ws)

lemma no_blank_lines:
  assumes "no_inner_blank s" and "\<not> untrimmed s" and "s \<noteq> []"
  shows "list_all (\<lambda>l. \<not> blank l) (split_lines s)"
proof -
  have e: "\<not> is_ws (hd s)" "\<not> is_ws (last s)"
    using assms(2,3) by (auto simp add: untrimmed_iff)
  have "\<not> blank (hd (split_lines s))"
    using assms(3) e by (intro first_line_not_blank)
  moreover have "\<forall>l \<in> set (tl (split_lines s)). \<not> blank l"
    using assms(1,3) e by (intro later_lines_not_blank)
  ultimately have "\<forall>l \<in> set (split_lines s). \<not> blank l"
    using split_lines_not_Nil [of s] by (cases "split_lines s") auto
  then show ?thesis by (simp add: list_all_iff)
qed

section \<open>The Search handler: results and failures\<close>

text \<open>
  Claim C1. The claim reads: for every upstream results list and every configured
  \<open>maxResults = N\<close> the Search handler returns the upstream results in upstream order,
  capped at \<open>N\<close> when \<open>N > 0\<close>, and all of them when \<open>N = 0\<close>. The handler cuts the
  mapped list with \<open>slice(0, maxResults)\<close> without testing for zero. Evaluated on the
  example endpoint, whose response holds two results: with \<open>maxResults = 1\<close> the first
  result is returned, with \<open>maxResults = 0\<close> the returned list is empty.
\<close>

theorem Search_maxResults_zero_returns_nothing:
  "Search (example_env (response_200 example_body))
     (example_config\<lparr>search_maxResults := 0\<rparr>) (js ''weather today'') =
     Returned (SearchOutput [])
   \<and> Search (example_env (response_200 example_body))
     (example_config\<lparr>search_maxResults := 1\<rparr>) (js ''weather today'') =
     Returned (SearchOutput
       [\<lparr>title = Some (JString (js ''A'')),
         summary = Some (JString (js ''first'')),
         url = Some (JString (js ''https://a.example/''))\<rparr>])"
  by code_simp

text \<open>
  Claim C2. When the upstream response has a status outside 200 to 299, the Search handler
  and the Visit handler both return the string \<open>Failed to make request: \<close> followed by
  the status text. The result is the same for every body, every JSON parser and every
  extraction: none of them is consulted.
\<close>

theorem non_2xx_returns_status_text:
  assumes "\<not> ok r"
  shows "(Search_url env cfg query = Some target \<and> fetch env target = Some r \<longrightarrow>
            Search env cfg query =
              Returned (Str (js ''Failed to make request: '' @ statusText r)))
       \<and> (fetch env page = Some r \<longrightarrow>
            Visit_tool env cfg page returnRaw =
              Returned (Str (js ''Failed to make request: '' @ statusText r)))"
  using assms by (simp add: Search_def Visit_tool_def Visit_def)

theorem non_2xx_returns_status_text_witness:
  "\<not> ok response_404
   \<and> Search_url (example_env response_404) example_config (js ''weather today'') =
       Some (js ''http://localhost/search?q=weather+today&engines=bing&language=en-US&format=json&safesearch=2'')
   \<and> fetch (example_env response_404)
       (js ''http://localhost/search?q=weather+today&engines=bing&language=en-US&format=json&safesearch=2'') =
       Some response_404
   \<and> fetch (example_env response_404) (js ''https://a.example/'') = Some response_404
   \<and> Search (example_env response_404) example_config (js ''weather today'') =
       Returned (Str (js ''Failed to make request: Not Found''))
   \<and> Visit_tool (example_env response_404) example_config (js ''https://a.example/'') None =
       Returned (Str (js ''Failed to make request: Not Found''))"
proof -
  have h: "\<not> ok response_404"
    by (simp add: ok_def response_404_def)
  have s: "js ''Failed to make request: '' @ statusText response_404 =
      js ''Failed to make request: Not Found''"
    by (simp add: response_404_def js_def)
  show ?thesis
    using h s example_Search_url [of response_404] example_fetch [of response_404]
      non_2xx_returns_status_text [OF h, of "example_env response_404" example_config
        "js ''weather today''"
        "js ''http://localhost/search?q=weather+today&engines=bing&language=en-US&format=json&safesearch=2''"
        "js ''https://a.example/''" None]
    by simp
qed

text \<open>
  Claim C9. When the response is successful and its body is not JSON, or is JSON without
  a \<open>results\<close> array, the Search handler returns no value: \<open>response.json()\<close> throws a
  SyntaxError in the first case, and the call of \<open>map\<close> on what is not an array throws
  a TypeError in the second.
\<close>

theorem Search_malformed_body_throws:
  assumes "Search_url env cfg query = Some target" and "fetch env target = Some r" and "ok r"
  shows "(JSON_parse env (body r) = None \<longrightarrow> Search env cfg query = Thrown SyntaxError)
       \<and> (\<forall>data. JSON_parse env (body r) = Some data \<and> results_array data = None \<longrightarrow>
            Search env cfg query = Thrown TypeError)"
  using assms by (auto simp add: Search_def map_results_no_array)

theorem Search_malformed_body_throws_witness:
  "ok (response_200 example_html)
   \<and> JSON_parse (example_env (response_200 example_html)) (body (response_200 example_html)) = None
   \<and> Search (example_env (response_200 example_html)) example_config (js ''weather today'') =
       Thrown SyntaxError
   \<and> ok (response_200 example_error_body)
   \<and> JSON_parse (example_env (response_200 example_error_body))
       (body (response_200 example_error_body)) = Some example_error_data
   \<and> results_array example_error_data = None
   \<and> Search (example_env (response_200 example_error_body)) example_config (js ''weather today'') =
       Thrown TypeError"
proof -
  have o: "ok (response_200 b)" for b
    by (simp add: ok_def response_200_def)
  have p1: "JSON_parse (example_env (response_200 example_html))
      (body (response_200 example_html)) = None"
    by code_simp
  have p2: "JSON_parse (example_env (response_200 example_error_body))
      (body (response_200 example_error_body)) = Some example_error_data"
    by code_simp
  have ra: "results_array example_error_data = None"
    by code_simp
  note w1 = Search_malformed_body_throws
      [of "example_env (response_200 example_html)" example_config "js ''weather today''"
        "js ''http://localhost/search?q=weather+today&engines=bing&language=en-US&format=json&safesearch=2''"
        "response_200 example_html", OF example_Search_url example_fetch o]
  note w2 = Search_malformed_body_throws
      [of "example_env (response_200 example_error_body)" example_config "js ''weather today''"
        "js ''http://localhost/search?q=weather+today&engines=bing&language=en-US&format=json&safesearch=2''"
        "response_200 example_error_body", OF example_Search_url example_fetch o]
  show ?thesis
    using o p1 p2 ra w1 w2 by simp
qed

text \<open>
  Claim C6. The configured safe-search value is mapped to the \<open>safesearch\<close> query
  parameter as Off to 2, Moderate to 1 and Strict to 0, and every value other than
  Moderate and Strict gives 2; the number, printed in decimal, is the value of the last
  parameter the handler appends.
\<close>

theorem safeSearch_mapping:
  "safeSearch_level (js ''Off'') = 2
   \<and> safeSearch_level (js ''Moderate'') = 1
   \<and> safeSearch_level (js ''Strict'') = 0
   \<and> (v \<noteq> js ''Moderate'' \<and> v \<noteq> js ''Strict'' \<longrightarrow> safeSearch_level v = 2)
   \<and> last (searchParams (Search_build u cfg query)) =
       (js ''safesearch'', Number_toString (safeSearch_level (search_safeSearch cfg)))
   \<and> Number_toString 2 = js ''2'' \<and> Number_toString 1 = js ''1'' \<and> Number_toString 0 = js ''0''"
  by (simp add: safeSearch_level_def js_def Search_build_def searchParams_append_def Let_def)

theorem safeSearch_mapping_witness:
  "js ''Off'' \<noteq> js ''Moderate'' \<and> js ''Off'' \<noteq> js ''Strict''
   \<and> safeSearch_level (js ''Off'') = 2
   \<and> last (searchParams (Search_build example_url example_config (js ''weather today''))) =
       (js ''safesearch'', js ''2'')"
proof -
  have d: "js ''Off'' \<noteq> js ''Moderate''" "js ''Off'' \<noteq> js ''Strict''"
    by (simp_all add: js_def)
  have c: "search_safeSearch example_config = js ''Off''"
    by (simp add: example_config_def)
  show ?thesis
    using d c
      safeSearch_mapping [of "js ''Off''" example_url example_config "js ''weather today''"]
    by simp
qed

text \<open>
  Claim C8, as amended. For the query \<open>weather today\<close> with engines \<open>["bing"]\<close>,
  language \<open>en-US\<close> and safe search Off, and whatever the base URL parses to, the URL the
  Search handler requests contains
  \<open>q=weather+today&engines=bing&language=en-US&format=json&safesearch=2\<close>: the
  parameters are serialised as \<open>application/x-www-form-urlencoded\<close>, which writes a
  space as \<open>+\<close>.
\<close>

theorem Search_url_example:
  assumes "URL_parse env (search_baseURL cfg) = Some u"
    and "search_engines cfg = [js ''bing'']"
    and "search_language cfg = js ''en-US''"
    and "search_safeSearch cfg = js ''Off''"
  shows "Search_url env cfg (js ''weather today'') =
           Some (URL_toString (Search_build u cfg (js ''weather today'')))
       \<and> sublist (js ''q=weather+today&engines=bing&language=en-US&format=json&safesearch=2'')
           (URL_toString (Search_build u cfg (js ''weather today'')))"
proof -
  let ?needle = "js ''q=weather+today&engines=bing&language=en-US&format=json&safesearch=2''"
  have ne: "?needle \<noteq> []"
    by (simp add: js_def)
  have "form_serialize (searchParams (Search_build u cfg (js ''weather today''))) =
          (if searchParams u = [] then [] else form_serialize (searchParams u) @ js ''&'')
          @ ?needle"
    using assms(2-4) example_query_string
    by (simp only: Search_build_params form_serialize_append list.distinct not_False_eq_True)
  then obtain pre where
    q: "form_serialize (searchParams (Search_build u cfg (js ''weather today''))) = pre @ ?needle"
    by blast
  have "URL_toString (Search_build u cfg (js ''weather today'')) =
          (before_query u @ js ''?'' @ pre) @ ?needle @ hash u"
    using q ne by (simp add: URL_toString_def Let_def Search_build_rest)
  then have "sublist ?needle (URL_toString (Search_build u cfg (js ''weather today'')))"
    by (simp only: sublist_appendI)
  then show ?thesis
    using assms(1) by (simp add: Search_url_def)
qed

theorem Search_url_example_witness:
  "URL_parse (example_env response_404) (search_baseURL example_config) = Some example_url
   \<and> search_engines example_config = [js ''bing'']
   \<and> search_language example_config = js ''en-US''
   \<and> search_safeSearch example_config = js ''Off''
   \<and> Search_url (example_env response_404) example_config (js ''weather today'') =
       Some (URL_toString (Search_build example_url example_config (js ''weather today'')))
   \<and> sublist (js ''q=weather+today&engines=bing&language=en-US&format=json&safesearch=2'')
       (URL_toString (Search_build example_url example_config (js ''weather today'')))"
proof -
  have p: "URL_parse (example_env response_404) (search_baseURL example_config) = Some example_url"
    by (simp add: example_env_def example_config_def)
  have c: "search_engines example_config = [js ''bing'']"
    "search_language example_config = js ''en-US''"
    "search_safeSearch example_config = js ''Off''"
    by (simp_all add: example_config_def)
  show ?thesis
    using p c Search_url_example [OF p c] by simp
qed

text \<open>
  Claim C8, as stated, fails: with the base URL \<open>http://localhost/search\<close> the requested
  URL is \<open>http://localhost/search?q=weather+today&engines=bing&language=en-US&format=json&safesearch=2\<close>,
  which does not contain \<open>q=weather%20today&engines=bing&language=en-US&format=json&safesearch=2\<close>.
\<close>

theorem Search_url_percent20_counterexample:
  "Search_url (example_env response_404) example_config (js ''weather today'') =
     Some (js ''http://localhost/search?q=weather+today&engines=bing&language=en-US&format=json&safesearch=2'')
   \<and> \<not> sublist (js ''q=weather%20today&engines=bing&language=en-US&format=json&safesearch=2'')
         (js ''http://localhost/search?q=weather+today&engines=bing&language=en-US&format=json&safesearch=2'')"
  by code_simp

section \<open>The Visit handler: raw bodies, extraction and truncation\<close>

lemma clean_Nil: "clean [] = []"
  by (simp add: clean_def trim_def replace_all.simps match_blank_def match_hws_def)

lemma ok_response_200: "ok (response_200 b)"
  by (simp add: ok_def response_200_def)

lemma body_response_200: "body (response_200 b) = b"
  by (simp add: response_200_def)

text \<open>
  Claim C3. On a successful response, when \<open>returnRaw\<close> is true or the configured
  \<open>forceRaw\<close> is true, Visit returns the body of the response as it is; and with
  \<open>forceRaw\<close> set, a call that leaves \<open>returnRaw\<close> unset returns what a call with
  \<open>returnRaw = true\<close> returns, under any configuration.
\<close>

theorem Visit_raw_returns_body:
  "(fetch env page = Some r \<and> ok r \<and> (returnRaw = Some True \<or> visit_forceRaw cfg) \<longrightarrow>
      Visit_tool env cfg page returnRaw = Returned (Str (body r)))
   \<and> (visit_forceRaw cfg \<longrightarrow>
      Visit_tool env cfg page None = Visit_tool env cfg' page (Some True))"
  by (auto simp add: Visit_tool_def Visit_def Let_def split: option.splits)

theorem Visit_raw_returns_body_witness:
  "fetch (example_env (response_200 example_html)) (js ''https://a.example/'') =
     Some (response_200 example_html)
   \<and> ok (response_200 example_html)
   \<and> visit_forceRaw (example_config\<lparr>visit_forceRaw := True\<rparr>)
   \<and> Visit_tool (example_env (response_200 example_html))
       (example_config\<lparr>visit_forceRaw := True\<rparr>) (js ''https://a.example/'') None =
       Returned (Str example_html)
   \<and> Visit_tool (example_env (response_200 example_html))
       (example_config\<lparr>visit_forceRaw := True\<rparr>) (js ''https://a.example/'') None =
     Visit_tool (example_env (response_200 example_html))
       example_config (js ''https://a.example/'') (Some True)"
proof -
  have c: "visit_forceRaw (example_config\<lparr>visit_forceRaw := True\<rparr>)"
    by simp
  note w = Visit_raw_returns_body [of "example_env (response_200 example_html)"
      "js ''https://a.example/''" "response_200 example_html" None
      "example_config\<lparr>visit_forceRaw := True\<rparr>" example_config]
  have 1: "Visit_tool (example_env (response_200 example_html))
       (example_config\<lparr>visit_forceRaw := True\<rparr>) (js ''https://a.example/'') None =
       Returned (Str example_html)"
    using w c example_fetch ok_response_200 body_response_200 [of example_html] by auto
  have 2: "Visit_tool (example_env (response_200 example_html))
       (example_config\<lparr>visit_forceRaw := True\<rparr>) (js ''https://a.example/'') None =
     Visit_tool (example_env (response_200 example_html))
       example_config (js ''https://a.example/'') (Some True)"
    using w c by blast
  show ?thesis
    by (intro conjI example_fetch ok_response_200 c 1 2)
qed

text \<open>
  Claim C5. On a successful response, with neither \<open>returnRaw\<close> nor \<open>forceRaw\<close> set, when
  the extraction finds no article (\<open>parse()\<close> returns \<open>null\<close>), Visit returns the string
  \<open>Failed to extract readable content.\<close>: a returned string, not a thrown fault and not
  an article object.
\<close>

theorem Visit_extraction_failure:
  assumes "fetch env page = Some r" and "ok r"
    and "returnRaw = None \<or> returnRaw = Some False" and "\<not> visit_forceRaw cfg"
    and "readability env (body r) = None"
  shows "Visit_tool env cfg page returnRaw =
           Returned (Str (js ''Failed to extract readable content.''))"
  using assms by (auto simp add: Visit_tool_def Visit_def Let_def)

theorem Visit_extraction_failure_witness:
  "fetch (example_env (response_200 example_body)) (js ''https://a.example/'') =
     Some (response_200 example_body)
   \<and> ok (response_200 example_body)
   \<and> \<not> visit_forceRaw example_config
   \<and> readability (example_env (response_200 example_body)) (body (response_200 example_body)) = None
   \<and> Visit_tool (example_env (response_200 example_body)) example_config
       (js ''https://a.example/'') None =
       Returned (Str (js ''Failed to extract readable content.''))"
proof -
  have f: "\<not> visit_forceRaw example_config"
    by (simp add: example_config_def)
  have n: "readability (example_env (response_200 example_body))
      (body (response_200 example_body)) = None"
    by code_simp
  show ?thesis
    using f n example_fetch [of "response_200 example_body" "js ''https://a.example/''"]
      ok_response_200 [of example_body]
      Visit_extraction_failure [OF example_fetch ok_response_200 disjI1 [OF refl] f n,
        of "js ''https://a.example/''"]
    by simp
qed

text \<open>
  Claim C10. When the extraction succeeds with a \<open>null\<close> text content, the \<open>null\<close> is
  replaced by the empty string before normalisation, and Visit returns the article object,
  with the empty string as content, not the extraction-failure string. The content field
  of the returned object is a string in every case.
\<close>

theorem Visit_null_textContent:
  assumes "fetch env page = Some r" and "ok r"
    and "returnRaw = None \<or> returnRaw = Some False" and "\<not> visit_forceRaw cfg"
    and "readability env (body r) = Some art"
    and "a_textContent art = None"
  shows "Visit_tool env cfg page returnRaw =
           Returned (Article
             \<lparr>v_title = a_title art, v_content = [], v_excerpt = a_excerpt art,
              v_byline = a_byline art, v_siteName = a_siteName art, v_lang = a_lang art,
              v_publishedTime = a_publishedTime art\<rparr>)"
  using assms by (auto simp add: Visit_tool_def Visit_def Let_def clean_Nil)

theorem Visit_null_textContent_witness:
  "fetch (example_env (response_200 example_bare_html)) (js ''https://a.example/'') =
     Some (response_200 example_bare_html)
   \<and> ok (response_200 example_bare_html)
   \<and> \<not> visit_forceRaw example_config
   \<and> readability (example_env (response_200 example_bare_html))
       (body (response_200 example_bare_html)) = Some example_bare_article
   \<and> a_textContent example_bare_article = None
   \<and> Visit_tool (example_env (response_200 example_bare_html)) example_config
       (js ''https://a.example/'') None =
       Returned (Article
         \<lparr>v_title = Some (js ''Untitled''), v_content = [], v_excerpt = None,
          v_byline = None, v_siteName = None, v_lang = None, v_publishedTime = None\<rparr>)"
proof -
  have f: "\<not> visit_forceRaw example_config"
    by (simp add: example_config_def)
  have a: "readability (example_env (response_200 example_bare_html))
      (body (response_200 example_bare_html)) = Some example_bare_article"
    by code_simp
  have t: "a_textContent example_bare_article = None"
    by (simp add: example_bare_article_def)
  show ?thesis
    using f a t example_fetch [of "response_200 example_bare_html" "js ''https://a.example/''"]
      ok_response_200 [of example_bare_html]
      Visit_null_textContent [OF example_fetch ok_response_200 disjI1 [OF refl] f a t,
        of "js ''https://a.example/''"]
    by (simp add: example_bare_article_def)
qed

text \<open>
  Claim C4. Let \<open>normalized\<close> be the normalised text of a successful extraction and \<open>L\<close>
  the configured \<open>maxContentLength\<close>. When \<open>L > 0\<close> and \<open>normalized\<close> is longer than
  \<open>L\<close> code units, the returned content is the first \<open>L\<close> code units of \<open>normalized\<close>
  followed by \<open>...Text truncated due to length limit\<close>; when \<open>L = 0\<close>, or \<open>normalized\<close>
  has at most \<open>L\<close> code units, the returned content is \<open>normalized\<close>.
\<close>

theorem Visit_truncates_content:
  assumes "fetch env page = Some r" and "ok r"
    and "returnRaw = None \<or> returnRaw = Some False" and "\<not> visit_forceRaw cfg"
    and "readability env (body r) = Some art"
    and "normalized = clean (case a_textContent art of None \<Rightarrow> [] | Some t \<Rightarrow> t)"
    and "L = visit_maxContentLength cfg"
  shows "\<exists>c. Visit_tool env cfg page returnRaw =
             Returned (Article
               \<lparr>v_title = a_title art, v_content = c, v_excerpt = a_excerpt art,
                v_byline = a_byline art, v_siteName = a_siteName art, v_lang = a_lang art,
                v_publishedTime = a_publishedTime art\<rparr>)
           \<and> (0 < L \<and> L < int (length normalized) \<longrightarrow>
                c = take (nat L) normalized @ js ''...Text truncated due to length limit'')
           \<and> (L = 0 \<or> int (length normalized) \<le> L \<longrightarrow> c = normalized)"
  using assms
  by (auto simp add: Visit_tool_def Visit_def Let_def slice0_nonneg truncation_marker_def)

theorem Visit_truncates_content_witness:
  "fetch (example_env (response_200 example_html)) (js ''https://a.example/'') =
     Some (response_200 example_html)
   \<and> ok (response_200 example_html)
   \<and> \<not> visit_forceRaw (example_config\<lparr>visit_maxContentLength := 5\<rparr>)
   \<and> readability (example_env (response_200 example_html)) (body (response_200 example_html)) =
       Some example_article
   \<and> js ''Hello \<newline> big world'' =
       clean (case a_textContent example_article of None \<Rightarrow> [] | Some t \<Rightarrow> t)
   \<and> 5 = visit_maxContentLength (example_config\<lparr>visit_maxContentLength := 5\<rparr>)
   \<and> (0::int) < 5 \<and> 5 < int (length (js ''Hello \<newline> big world''))
   \<and> Visit_tool (example_env (response_200 example_html))
       (example_config\<lparr>visit_maxContentLength := 5\<rparr>) (js ''https://a.example/'') None =
       Returned (Article
         \<lparr>v_title = Some (js ''Greeting''),
          v_content = js ''Hello...Text truncated due to length limit'',
          v_excerpt = None, v_byline = None, v_siteName = None, v_lang = None,
          v_publishedTime = None\<rparr>)"
proof -
  have f: "\<not> visit_forceRaw (example_config\<lparr>visit_maxContentLength := 5\<rparr>)"
    by (simp add: example_config_def)
  have a: "readability (example_env (response_200 example_html))
      (body (response_200 example_html)) = Some example_article"
    by code_simp
  have n: "js ''Hello \<newline> big world'' =
      clean (case a_textContent example_article of None \<Rightarrow> [] | Some t \<Rightarrow> t)"
    by code_simp
  have l: "5 = visit_maxContentLength (example_config\<lparr>visit_maxContentLength := 5\<rparr>)"
    by simp
  have b: "(0::int) < 5 \<and> 5 < int (length (js ''Hello \<newline> big world''))"
    by (simp add: js_def)
  have t: "take (nat 5) (js ''Hello \<newline> big world'')
        @ js ''...Text truncated due to length limit'' =
      js ''Hello...Text truncated due to length limit''"
    by (simp add: js_def)
  have ar: "a_title example_article = Some (js ''Greeting'')" "a_excerpt example_article = None"
    "a_byline example_article = None" "a_siteName example_article = None"
    "a_lang example_article = None" "a_publishedTime example_article = None"
    by (simp_all add: example_article_def)
  show ?thesis
    using f a n l b t ar
      example_fetch [of "response_200 example_html" "js ''https://a.example/''"]
      ok_response_200 [of example_html]
      Visit_truncates_content [OF example_fetch ok_response_200 disjI1 [OF refl] f a n l,
        of "js ''https://a.example/''"]
    by auto
qed

lemma Visit_Article_source:
  assumes "Visit env cfg page raw = Returned (Article out)"
  shows "\<exists>r art. fetch env page = Some r \<and> ok r \<and> readability env (body r) = Some art
      \<and> v_content out =
           (let normalized =
                  normalize_spec (case a_textContent art of None \<Rightarrow> [] | Some t \<Rightarrow> t)
            in if 0 < visit_maxContentLength cfg
                  \<and> visit_maxContentLength cfg < int (length normalized)
               then take (nat (visit_maxContentLength cfg)) normalized @ truncation_marker
               else normalized)"
proof (cases "fetch env page")
  case None
  then show ?thesis using assms by (simp add: Visit_def)
next
  case f: (Some r)
  show ?thesis
  proof (cases "readability env (body r)")
    case None
    then show ?thesis using assms f by (simp add: Visit_def Let_def split: if_splits)
  next
    case (Some art)
    have "ok r"
      using assms f by (auto simp add: Visit_def split: if_splits)
    moreover have "v_content out =
           (let normalized =
                  normalize_spec (case a_textContent art of None \<Rightarrow> [] | Some t \<Rightarrow> t)
            in if 0 < visit_maxContentLength cfg
                  \<and> visit_maxContentLength cfg < int (length normalized)
               then take (nat (visit_maxContentLength cfg)) normalized @ truncation_marker
               else normalized)"
      using assms f Some
      by (auto simp add: Visit_def Let_def slice0_nonneg clean_normalize_spec split: if_splits)
    ultimately show ?thesis using f Some by blast
  qed
qed

text \<open>
  Claim C7. The content of every article object that Visit returns is the normalised text
  content of the extracted article, or its first \<open>maxContentLength\<close> code units followed
  by the truncation marker. The normalised text is the text without its blank lines, the
  remaining lines separated by single newlines, with every run of spaces and tabs
  collapsed into a single space, trimmed; it keeps every code unit of the text that is not
  white space, in order. The content has no two consecutive blank lines, and when it is
  not empty no blank line at all (lines are split at the newline; a line is blank when it
  is empty or holds white space only); it has no two consecutive code units that are
  spaces or tabs, and it neither starts nor ends with white space.
\<close>

theorem Visit_content_normalized:
  assumes "Visit_tool env cfg page returnRaw = Returned (Article out)"
  shows "(\<exists>r art text normalized.
            fetch env page = Some r \<and> ok r \<and> readability env (body r) = Some art
          \<and> text = (case a_textContent art of None \<Rightarrow> [] | Some t \<Rightarrow> t)
          \<and> normalized = normalize_spec text
          \<and> filter (\<lambda>x. \<not> is_ws x) normalized = filter (\<lambda>x. \<not> is_ws x) text
          \<and> v_content out =
               (if 0 < visit_maxContentLength cfg
                   \<and> visit_maxContentLength cfg < int (length normalized)
                then take (nat (visit_maxContentLength cfg)) normalized
                       @ js ''...Text truncated due to length limit''
                else normalized))
       \<and> \<not> two_blank_lines (split_lines (v_content out))
       \<and> (v_content out = [] \<or> list_all (\<lambda>l. \<not> blank l) (split_lines (v_content out)))
       \<and> \<not> hws_run (v_content out)
       \<and> \<not> untrimmed (v_content out)"
proof -
  obtain r art where s: "fetch env page = Some r" "ok r" "readability env (body r) = Some art"
    "v_content out =
           (let normalized =
                  normalize_spec (case a_textContent art of None \<Rightarrow> [] | Some t \<Rightarrow> t)
            in if 0 < visit_maxContentLength cfg
                  \<and> visit_maxContentLength cfg < int (length normalized)
               then take (nat (visit_maxContentLength cfg)) normalized @ truncation_marker
               else normalized)"
    using assms Visit_Article_source unfolding Visit_tool_def by blast
  let ?text = "case a_textContent art of None \<Rightarrow> [] | Some t \<Rightarrow> t"
  have k: "filter (\<lambda>x. \<not> is_ws x) (normalize_spec ?text) = filter (\<lambda>x. \<not> is_ws x) ?text"
    using clean_keeps_not_ws [of ?text] by (simp add: clean_normalize_spec)
  have 0: "\<exists>r art text normalized.
            fetch env page = Some r \<and> ok r \<and> readability env (body r) = Some art
          \<and> text = (case a_textContent art of None \<Rightarrow> [] | Some t \<Rightarrow> t)
          \<and> normalized = normalize_spec text
          \<and> filter (\<lambda>x. \<not> is_ws x) normalized = filter (\<lambda>x. \<not> is_ws x) text
          \<and> v_content out =
               (if 0 < visit_maxContentLength cfg
                   \<and> visit_maxContentLength cfg < int (length normalized)
                then take (nat (visit_maxContentLength cfg)) normalized
                       @ js ''...Text truncated due to length limit''
                else normalized)"
    using s k by (auto simp add: Let_def truncation_marker_def)
  have c: "v_content out = clean ?text
      \<or> (\<exists>n > 0. v_content out = take n (clean ?text) @ truncation_marker)"
    using s(4)
    by (cases "0 < visit_maxContentLength cfg
          \<and> visit_maxContentLength cfg < int (length (normalize_spec ?text))")
       (auto simp add: Let_def clean_normalize_spec
          intro: exI [of _ "nat (visit_maxContentLength cfg)"])
  have 1: "no_inner_blank (v_content out)"
    using c clean_no_inner_blank truncated_no_inner_blank by metis
  have 2: "\<not> hws_run (v_content out)"
    using c clean_no_hws_run truncated_no_hws_run by metis
  have 3: "\<not> untrimmed (v_content out)"
    using c clean_not_untrimmed truncated_not_untrimmed by metis
  have 4: "\<not> two_blank_lines (split_lines (v_content out))"
    using 1 3 by (rule no_two_blank_lines)
  have 5: "v_content out = [] \<or> list_all (\<lambda>l. \<not> blank l) (split_lines (v_content out))"
    using 1 3 no_blank_lines by blast
  show ?thesis using 0 2 3 4 5 by blast
qed

theorem Visit_content_normalized_witness:
  "Visit_tool (example_env (response_200 example_html)) example_config
     (js ''https://a.example/'') None = Returned (Article example_output)
   \<and> normalize_spec (js '' Hello \<newline>\<newline> \<newline>  big   world \<newline>'') =
       js ''Hello \<newline> big world''
   \<and> v_content example_output = js ''Hello \<newline> big world''
   \<and> \<not> two_blank_lines (split_lines (v_content example_output))
   \<and> (v_content example_output = []
      \<or> list_all (\<lambda>l. \<not> blank l) (split_lines (v_content example_output)))
   \<and> \<not> hws_run (v_content example_output)
   \<and> \<not> untrimmed (v_content example_output)"
proof -
  have v: "Visit_tool (example_env (response_200 example_html)) example_config
     (js ''https://a.example/'') None = Returned (Article example_output)"
    by code_simp
  have n: "normalize_spec (js '' Hello \<newline>\<newline> \<newline>  big   world \<newline>'') =
       js ''Hello \<newline> big world''"
    by code_simp
  have c: "v_content example_output = js ''Hello \<newline> big world''"
    by (simp add: example_output_def)
  show ?thesis
    using v n c Visit_content_normalized [OF v] by blast
qed

end
